theory Spec2Isabelle
  imports Complex_Main "HOL-Library.AList" "HOL-Library.Sublist"
begin

section \<open>Trust Framework: badge assignment\<close>

text \<open>
  Source: \<^verbatim>\<open>src/gatf/core/trust_framework.py\<close>. Python floats are modelled as
  \<^typ>\<open>real\<close> (the comparisons against the integer thresholds are exact on every float
  that is a number), Python ints as \<^typ>\<open>int\<close>, \<^verbatim>\<open>len(...)\<close> as \<^const>\<open>length\<close>.
\<close>

datatype BadgeType = BRONZE | SILVER | GOLD | PLATINUM | DOMAIN_EXPERT

text \<open>The entries of the requirement table for the four general badges.\<close>

record badge_requirements =
  min_score :: real
  min_domains :: nat
  required_metrics :: "string list"
  min_test_cases :: int

text \<open>The entry of the requirement table for the domain expert badge.\<close>

record expert_badge_requirements =
  min_domain_score :: real
  min_test_cases_per_domain :: int
  required_domain_metrics :: "string list"

text \<open>
  \<^verbatim>\<open>_initialize_badge_requirements\<close>: the table is a dict from badge type to a dict
  of requirements. The general badges and the domain expert badge have different keys,
  so the table is split in two; \<^verbatim>\<open>_assign_badges\<close> reads the general keys only
  for the four general badge types.
\<close>

fun initialize_badge_requirements :: "BadgeType \<Rightarrow> badge_requirements option" where
  "initialize_badge_requirements BRONZE = Some
     \<lparr>min_score = 50, min_domains = 1,
      required_metrics = [''accuracy'', ''consistency''],
      min_test_cases = 10\<rparr>"
| "initialize_badge_requirements SILVER = Some
     \<lparr>min_score = 70, min_domains = 2,
      required_metrics = [''accuracy'', ''consistency'', ''reliability''],
      min_test_cases = 50\<rparr>"
| "initialize_badge_requirements GOLD = Some
     \<lparr>min_score = 85, min_domains = 3,
      required_metrics = [''accuracy'', ''consistency'', ''reliability'', ''robustness''],
      min_test_cases = 100\<rparr>"
| "initialize_badge_requirements PLATINUM = Some
     \<lparr>min_score = 95, min_domains = 5,
      required_metrics =
        [''accuracy'', ''consistency'', ''reliability'', ''robustness'', ''fairness''],
      min_test_cases = 500\<rparr>"
| "initialize_badge_requirements DOMAIN_EXPERT = None"

definition initialize_expert_requirements :: expert_badge_requirements where
  "initialize_expert_requirements =
     \<lparr>min_domain_score = 90, min_test_cases_per_domain = 100,
      required_domain_metrics = [''domain_expertise'', ''compliance'']\<rparr>"

record TrustScore =
  overall_score :: real
  domain_scores :: "(string \<times> real) list"
  metric_scores :: "(string \<times> real) list"
  confidence :: real

text \<open>
  The entries of \<^verbatim>\<open>requirements_met\<close> are formatted strings in the source; the
  model keeps what each string is formatted from.
\<close>

datatype requirement_met =
    ScoreGE real
  | DomainsGE nat
  | TestCasesGE int
  | RequiredMetrics "string list"
  | DomainScoreGE real
  | DomainIs string

text \<open>
  \<^verbatim>\<open>TrustBadge\<close>. \<^verbatim>\<open>issued_date\<close> is the clock at construction and
  \<^verbatim>\<open>expiry_date\<close> is that clock plus a number of days; the model keeps the number
  of days. The metadata dict has the keys \<^verbatim>\<open>domains\<close> and \<^verbatim>\<open>test_cases\<close>
  (general badges) or \<^verbatim>\<open>domain\<close> (expert badges).
\<close>

record TrustBadge =
  badge_type :: BadgeType
  domain :: "string option"
  score :: real
  requirements_met :: "requirement_met list"
  expiry_days :: nat
  metadata_domains :: "string list"
  metadata_test_cases :: "int option"

text \<open>
  The first loop of \<^verbatim>\<open>_assign_badges\<close> over the candidate badge types. Each
  \<^verbatim>\<open>continue\<close> is the recursive call on the remaining candidates; the
  \<^verbatim>\<open>break\<close> after the append is the branch that returns without looking at them.
  A candidate with no general requirement entry raises \<^verbatim>\<open>KeyError\<close> in the source
  (\<^const>\<open>None\<close> here); the candidate list of the source has none.
\<close>

fun general_badges ::
  "TrustScore \<Rightarrow> (string \<rightharpoonup> 'm) \<Rightarrow> int \<Rightarrow> string list \<Rightarrow> BadgeType list
     \<Rightarrow> TrustBadge list option" where
  "general_badges trust_score metrics num_test_cases domains [] = Some []"
| "general_badges trust_score metrics num_test_cases domains (bt # rest) =
     (case initialize_badge_requirements bt of
        None \<Rightarrow> None
      | Some requirements \<Rightarrow>
          if overall_score trust_score < min_score requirements
            then general_badges trust_score metrics num_test_cases domains rest
          else if length domains < min_domains requirements
            then general_badges trust_score metrics num_test_cases domains rest
          else if num_test_cases < min_test_cases requirements
            then general_badges trust_score metrics num_test_cases domains rest
          else if \<not> list_all (\<lambda>m. metrics m \<noteq> None) (required_metrics requirements)
            then general_badges trust_score metrics num_test_cases domains rest
          else Some
            [\<lparr>badge_type = bt, domain = None, score = overall_score trust_score,
              requirements_met =
                [ScoreGE (min_score requirements), DomainsGE (min_domains requirements),
                 TestCasesGE (min_test_cases requirements),
                 RequiredMetrics (required_metrics requirements)],
              expiry_days = 365,
              metadata_domains = domains,
              metadata_test_cases = Some num_test_cases\<rparr>])"

text \<open>The second loop of \<^verbatim>\<open>_assign_badges\<close>, over the items of the domain scores.\<close>

fun expert_badges :: "(string \<times> real) list \<Rightarrow> TrustBadge list" where
  "expert_badges [] = []"
| "expert_badges ((d, s) # rest) =
     (if s \<ge> min_domain_score initialize_expert_requirements
      then \<lparr>badge_type = DOMAIN_EXPERT, domain = Some d, score = s,
             requirements_met =
               [DomainScoreGE (min_domain_score initialize_expert_requirements), DomainIs d],
             expiry_days = 180,
             metadata_domains = [d],
             metadata_test_cases = None\<rparr> # expert_badges rest
      else expert_badges rest)"

definition assign_badges ::
  "TrustScore \<Rightarrow> (string \<rightharpoonup> 'm) \<Rightarrow> int \<Rightarrow> string list \<Rightarrow> TrustBadge list option" where
  "assign_badges trust_score metrics num_test_cases domains =
     (case general_badges trust_score metrics num_test_cases domains
             [PLATINUM, GOLD, SILVER, BRONZE] of
        None \<Rightarrow> None
      | Some badges \<Rightarrow> Some (badges @ expert_badges (domain_scores trust_score)))"

text \<open>
  The thresholds of a general badge as the specification words them: minimum score,
  minimum number of domains, minimum number of test cases, and every required metric
  present in the metric map.
\<close>

definition thresholds_met ::
  "TrustScore \<Rightarrow> (string \<rightharpoonup> 'm) \<Rightarrow> int \<Rightarrow> string list \<Rightarrow> BadgeType \<Rightarrow> bool" where
  "thresholds_met trust_score metrics num_test_cases domains bt =
     (case initialize_badge_requirements bt of
        None \<Rightarrow> False
      | Some r \<Rightarrow>
          min_score r \<le> overall_score trust_score \<and>
          min_domains r \<le> length domains \<and>
          min_test_cases r \<le> num_test_cases \<and>
          set (required_metrics r) \<subseteq> dom metrics)"

definition is_general :: "TrustBadge \<Rightarrow> bool" where
  "is_general b = (badge_type b \<noteq> DOMAIN_EXPERT)"

lemma expert_badges_not_general: "filter is_general (expert_badges ds) = []"
  by (induction ds rule: expert_badges.induct) (simp_all add: is_general_def)

lemma list_all_dom: "list_all (\<lambda>m. f m \<noteq> None) xs = (set xs \<subseteq> dom f)"
  by (induction xs) auto


lemma general_badges_met:
  assumes "initialize_badge_requirements bt = Some r" "thresholds_met ts m n ds bt"
  shows "\<exists>b. general_badges ts m n ds (bt # rest) = Some [b] \<and> badge_type b = bt"
  using assms
  by (simp add: thresholds_met_def not_less list_all_dom del: not_None_eq)

lemma general_badges_not_met:
  assumes "initialize_badge_requirements bt = Some r" "\<not> thresholds_met ts m n ds bt"
  shows "general_badges ts m n ds (bt # rest) = general_badges ts m n ds rest"
  using assms
  by (auto simp add: thresholds_met_def not_less list_all_dom simp del: not_None_eq)

lemma general_badges_find:
  assumes "DOMAIN_EXPERT \<notin> set cs"
  shows "\<exists>gs. general_badges ts m n ds cs = Some gs \<and>
           filter is_general gs = gs \<and>
           map badge_type gs =
             (case find (thresholds_met ts m n ds) cs of None \<Rightarrow> [] | Some bt \<Rightarrow> [bt])"
  using assms
proof (induction cs)
  case Nil
  show ?case by simp
next
  case (Cons bt rest)
  from Cons.prems have bt: "bt \<noteq> DOMAIN_EXPERT" by auto
  then obtain r where r: "initialize_badge_requirements bt = Some r"
    by (cases bt) simp_all
  show ?case
  proof (cases "thresholds_met ts m n ds bt")
    case True
    from general_badges_met [OF r True, of rest]
    obtain b where "general_badges ts m n ds (bt # rest) = Some [b]" "badge_type b = bt"
      by blast
    with True bt show ?thesis
      by (simp add: is_general_def del: general_badges.simps)
  next
    case False
    from Cons have "\<exists>gs. general_badges ts m n ds rest = Some gs \<and>
           filter is_general gs = gs \<and>
           map badge_type gs =
             (case find (thresholds_met ts m n ds) rest of None \<Rightarrow> [] | Some bt \<Rightarrow> [bt])"
      by simp
    then show ?thesis
      using False unfolding general_badges_not_met [OF r False] by simp
  qed
qed

text \<open>
  C1. For every trust score, metric map, test-case count and domain list, badge
  assignment returns a badge list with at most one general badge: the general badges
  granted are exactly the first of Platinum, Gold, Silver, Bronze (in that order) whose
  thresholds are all met, or none when no candidate meets them; the remaining badges are
  domain expert badges. With overall score 72, two domains, 60 test cases and the metrics
  accuracy, consistency and reliability present, the general badge is Silver.
\<close>

theorem assign_badges_highest_general_badge:
  "\<exists>bs. assign_badges ts m n ds = Some bs \<and>
     length (filter is_general bs) \<le> 1 \<and>
     map badge_type (filter is_general bs) =
       (case find (thresholds_met ts m n ds) [PLATINUM, GOLD, SILVER, BRONZE] of
          None \<Rightarrow> [] | Some bt \<Rightarrow> [bt]) \<and>
     (overall_score ts = 72 \<and> length ds = 2 \<and> n = 60 \<and>
      {''accuracy'', ''consistency'', ''reliability''} \<subseteq> dom m
        \<longrightarrow> map badge_type (filter is_general bs) = [SILVER])"
proof -
  define cs where "cs = [PLATINUM, GOLD, SILVER, BRONZE]"
  have "DOMAIN_EXPERT \<notin> set cs" by (simp add: cs_def)
  from general_badges_find [OF this, of ts m n ds]
  obtain gs where gs: "general_badges ts m n ds cs = Some gs"
    and gen: "filter is_general gs = gs"
    and ty: "map badge_type gs =
      (case find (thresholds_met ts m n ds) cs of None \<Rightarrow> [] | Some bt \<Rightarrow> [bt])"
    by blast
  define bs where "bs = gs @ expert_badges (domain_scores ts)"
  have run: "assign_badges ts m n ds = Some bs"
    using gs by (simp add: assign_badges_def bs_def cs_def)
  have fl: "filter is_general bs = gs"
    by (simp add: bs_def gen expert_badges_not_general)
  have "length (map badge_type gs) \<le> 1"
    unfolding ty by (simp split: option.split)
  then have le: "length (filter is_general bs) \<le> 1"
    by (simp add: fl)
  have silver: "map badge_type gs = [SILVER]"
    if "overall_score ts = 72 \<and> length ds = 2 \<and> n = 60 \<and>
       {''accuracy'', ''consistency'', ''reliability''} \<subseteq> dom m"
    unfolding ty cs_def using that by (auto simp add: thresholds_met_def)
  have "assign_badges ts m n ds = Some bs \<and>
     length (filter is_general bs) \<le> 1 \<and>
     map badge_type (filter is_general bs) =
       (case find (thresholds_met ts m n ds) [PLATINUM, GOLD, SILVER, BRONZE] of
          None \<Rightarrow> [] | Some bt \<Rightarrow> [bt]) \<and>
     (overall_score ts = 72 \<and> length ds = 2 \<and> n = 60 \<and>
      {''accuracy'', ''consistency'', ''reliability''} \<subseteq> dom m
        \<longrightarrow> map badge_type (filter is_general bs) = [SILVER])"
    unfolding fl using run le ty silver unfolding fl cs_def by blast
  then show ?thesis ..
qed

theorem assign_badges_highest_general_badge_witness:
  "\<exists>bs. assign_badges
          \<lparr>overall_score = 72, domain_scores = [(''finance'', 91), (''legal'', 60)],
           metric_scores = [], confidence = 2 / 5\<rparr>
          [''accuracy'' \<mapsto> (1::nat), ''consistency'' \<mapsto> 1, ''reliability'' \<mapsto> 1]
          60 [''finance'', ''legal''] = Some bs \<and>
        map badge_type bs = [SILVER, DOMAIN_EXPERT] \<and>
        map badge_type (filter is_general bs) = [SILVER]"
proof -
  let ?ts = "\<lparr>overall_score = 72, domain_scores = [(''finance'', 91), (''legal'', 60)],
           metric_scores = [], confidence = 2 / 5\<rparr>"
  let ?m = "[''accuracy'' \<mapsto> (1::nat), ''consistency'' \<mapsto> 1, ''reliability'' \<mapsto> 1]"
  have run: "map badge_type (the (assign_badges ?ts ?m 60 [''finance'', ''legal'']))
      = [SILVER, DOMAIN_EXPERT]"
    by (simp add: assign_badges_def initialize_expert_requirements_def)
  from assign_badges_highest_general_badge [of ?ts ?m 60 "[''finance'', ''legal'']"]
  show ?thesis using run by auto
qed

section \<open>Quality validation engine: accuracy of two numbers\<close>

text \<open>
  Source: \<^verbatim>\<open>QualityValidator._calculate_accuracy\<close> in
  \<^verbatim>\<open>src/gatf/validation/engines/quality_validator.py\<close>, on the path taken when
  both arguments are numbers (\<^verbatim>\<open>int\<close> or \<^verbatim>\<open>float\<close>): the exact-match test
  comes first, the string test fails, and the numeric test returns. Numbers are modelled
  as \<^typ>\<open>real\<close>; the division is reached with a nonzero divisor only.
\<close>

definition calculate_accuracy_numeric :: "real \<Rightarrow> real \<Rightarrow> real" where
  "calculate_accuracy_numeric output expected =
     (if output = expected then 1
      else if expected = 0 then (if output = 0 then 1 else 0)
      else 1 - min 1 (\<bar>output - expected\<bar> / \<bar>expected\<bar>))"

text \<open>
  C9. The accuracy of two numbers is \<open>1 - min 1 (|out - exp| / |exp|)\<close> when the
  expected value is nonzero, 1 when both are zero, 0 when the expected value is zero and
  the output is not; it always lies in \<open>[0, 1]\<close> and is 1 whenever the output equals
  the expected value.
\<close>

theorem calculate_accuracy_numeric_score:
  "(expected \<noteq> 0 \<longrightarrow>
      calculate_accuracy_numeric output expected
        = 1 - min 1 (\<bar>output - expected\<bar> / \<bar>expected\<bar>)) \<and>
   calculate_accuracy_numeric 0 0 = 1 \<and>
   (output \<noteq> 0 \<longrightarrow> calculate_accuracy_numeric output 0 = 0) \<and>
   0 \<le> calculate_accuracy_numeric output expected \<and>
   calculate_accuracy_numeric output expected \<le> 1 \<and>
   calculate_accuracy_numeric expected expected = 1"
proof -
  have nonneg: "0 \<le> \<bar>output - expected\<bar> / \<bar>expected\<bar>"
    by simp
  have lower: "0 \<le> calculate_accuracy_numeric output expected"
    by (simp add: calculate_accuracy_numeric_def)
  have upper: "calculate_accuracy_numeric output expected \<le> 1"
    using nonneg by (simp add: calculate_accuracy_numeric_def min_def)
  show ?thesis
    using lower upper by (simp add: calculate_accuracy_numeric_def)
qed

theorem calculate_accuracy_numeric_score_witness:
  "calculate_accuracy_numeric 3 4 = 3 / 4 \<and>
   calculate_accuracy_numeric 9 4 = 0 \<and>
   calculate_accuracy_numeric 5 0 = 0 \<and>
   calculate_accuracy_numeric 0 0 = 1"
  using calculate_accuracy_numeric_score [of 4 3]
    calculate_accuracy_numeric_score [of 4 9]
    calculate_accuracy_numeric_score [of 0 5]
  by simp

section \<open>Configuration validation\<close>

text \<open>
  Source: \<^verbatim>\<open>src/gatf/core/config.py\<close>. A dict is an association list in
  insertion order (the loops of \<^verbatim>\<open>_validate_config\<close> run over the items in that
  order and raise at the first violation); floats are \<^typ>\<open>real\<close>. The messages of
  \<^verbatim>\<open>ConfigurationError\<close> are formatted strings in the source; the model keeps
  what each message is formatted from.
\<close>

datatype ConfigurationError =
    ApiKeyRequired
  | BaseUrlRequired
  | InvalidPlatform string ConfigurationError
  | WeightsMustSumToOne real
  | BadgeThresholdOutOfRange string

record PlatformConfig =
  enabled :: bool
  base_url :: "string option"
  api_key :: "string option"
  timeout :: int
  retry_attempts :: int
  retry_delay :: int
  custom_headers :: "(string \<times> string) list"

text \<open>
  Python's \<^verbatim>\<open>not s\<close> for an optional string: true for \<^verbatim>\<open>None\<close> and for
  the empty string.
\<close>

fun py_not :: "string option \<Rightarrow> bool" where
  "py_not None = True"
| "py_not (Some s) = (s = [])"

text \<open>\<^verbatim>\<open>PlatformConfig.validate\<close>.\<close>

definition validate :: "PlatformConfig \<Rightarrow> ConfigurationError + unit" where
  "validate p =
     (if enabled p \<and> py_not (api_key p) then Inl ApiKeyRequired
      else if enabled p \<and> py_not (base_url p) then Inl BaseUrlRequired
      else Inr ())"

record TrustScoringConfig =
  scoring_algorithm :: string
  confidence_level :: real
  weights :: "(string \<times> real) list"
  badge_thresholds :: "(string \<times> real) list"
  score_validity_days :: int
  continuous_monitoring :: bool
  drift_detection_threshold :: real

text \<open>The defaults of the \<^verbatim>\<open>TrustScoringConfig\<close> dataclass.\<close>

definition default_trust_scoring :: TrustScoringConfig where
  "default_trust_scoring =
     \<lparr>scoring_algorithm = ''weighted_average'',
      confidence_level = 0.95,
      weights = [(''quality'', 0.25), (''bias'', 0.20), (''security'', 0.20),
                 (''compliance'', 0.20), (''fairness'', 0.15)],
      badge_thresholds = [(''basic'', 0.60), (''validated'', 0.75),
                          (''certified'', 0.85), (''premium'', 0.95)],
      score_validity_days = 30,
      continuous_monitoring = True,
      drift_detection_threshold = 0.1\<rparr>"

text \<open>The part of \<^verbatim>\<open>GATFConfig\<close> that \<^verbatim>\<open>_validate_config\<close> reads.\<close>

record GATFConfig =
  platforms :: "(string \<times> PlatformConfig) list"
  trust_scoring :: TrustScoringConfig

text \<open>The first loop of \<^verbatim>\<open>_validate_config\<close>: the platform configurations.\<close>

fun validate_platforms :: "(string \<times> PlatformConfig) list \<Rightarrow> ConfigurationError + unit" where
  "validate_platforms [] = Inr ()"
| "validate_platforms ((platform_name, platform_config) # rest) =
     (case validate platform_config of
        Inl e \<Rightarrow> Inl (InvalidPlatform platform_name e)
      | Inr _ \<Rightarrow> validate_platforms rest)"

text \<open>The last loop of \<^verbatim>\<open>_validate_config\<close>: the badge thresholds.\<close>

fun validate_thresholds :: "(string \<times> real) list \<Rightarrow> ConfigurationError + unit" where
  "validate_thresholds [] = Inr ()"
| "validate_thresholds ((threshold_name, threshold_value) # rest) =
     (if \<not> (0 \<le> threshold_value \<and> threshold_value \<le> 1)
      then Inl (BadgeThresholdOutOfRange threshold_name)
      else validate_thresholds rest)"

definition validate_config :: "GATFConfig \<Rightarrow> ConfigurationError + unit" where
  "validate_config cfg =
     (case validate_platforms (platforms cfg) of
        Inl e \<Rightarrow> Inl e
      | Inr _ \<Rightarrow>
          (let total_weight = sum_list (map snd (weights (trust_scoring cfg)))
           in if \<bar>total_weight - 1.0\<bar> > 0.001
              then Inl (WeightsMustSumToOne total_weight)
              else validate_thresholds (badge_thresholds (trust_scoring cfg))))"

text \<open>The three invariants as the specification words them.\<close>

definition platform_incomplete :: "PlatformConfig \<Rightarrow> bool" where
  "platform_incomplete p = (enabled p \<and> (py_not (api_key p) \<or> py_not (base_url p)))"

definition weights_off :: "(string \<times> real) list \<Rightarrow> bool" where
  "weights_off ws = (\<bar>sum_list (map snd ws) - 1\<bar> > 0.001)"

definition threshold_outside :: "real \<Rightarrow> bool" where
  "threshold_outside v = (v < 0 \<or> 1 < v)"

definition invariant_violated :: "GATFConfig \<Rightarrow> bool" where
  "invariant_violated cfg =
     (list_ex platform_incomplete (map snd (platforms cfg)) \<or>
      weights_off (weights (trust_scoring cfg)) \<or>
      list_ex threshold_outside (map snd (badge_thresholds (trust_scoring cfg))))"

lemma validate_platforms_raises:
  "(\<exists>e. validate_platforms ps = Inl e) = list_ex platform_incomplete (map snd ps)"
  by (induction ps rule: validate_platforms.induct)
     (auto simp: validate_def platform_incomplete_def split: sum.splits if_splits)

lemma validate_platforms_ok:
  "(validate_platforms ps = Inr ()) = (\<not> list_ex platform_incomplete (map snd ps))"
  by (induction ps rule: validate_platforms.induct)
     (auto simp: validate_def platform_incomplete_def split: sum.splits if_splits)

lemma validate_thresholds_raises:
  "(\<exists>e. validate_thresholds ts = Inl e) = list_ex threshold_outside (map snd ts)"
  by (induction ts rule: validate_thresholds.induct)
     (auto simp: threshold_outside_def)

lemma validate_thresholds_ok:
  "(validate_thresholds ts = Inr ()) = (\<not> list_ex threshold_outside (map snd ts))"
  by (induction ts rule: validate_thresholds.induct)
     (auto simp: threshold_outside_def)

lemma validate_config_raises:
  "(\<exists>e. validate_config cfg = Inl e) = invariant_violated cfg"
proof (cases "validate_platforms (platforms cfg)")
  case (Inl e)
  then have "list_ex platform_incomplete (map snd (platforms cfg))"
    using validate_platforms_raises [of "platforms cfg"] by auto
  with Inl show ?thesis
    by (simp add: validate_config_def invariant_violated_def)
next
  case (Inr u)
  then have ok: "\<not> list_ex platform_incomplete (map snd (platforms cfg))"
    using validate_platforms_ok [of "platforms cfg"] by simp
  show ?thesis
  proof (cases "weights_off (weights (trust_scoring cfg))")
    case True
    with Inr show ?thesis
      by (simp add: validate_config_def invariant_violated_def weights_off_def Let_def)
  next
    case False
    with Inr ok show ?thesis
      using validate_thresholds_raises [of "badge_thresholds (trust_scoring cfg)"]
      by (simp add: validate_config_def invariant_violated_def weights_off_def Let_def)
  qed
qed

lemma default_weights_pass: "\<not> weights_off (weights default_trust_scoring)"
  by (simp add: weights_off_def default_trust_scoring_def)

lemma default_thresholds_pass:
  "\<not> list_ex threshold_outside (map snd (badge_thresholds default_trust_scoring))"
  by (simp add: threshold_outside_def default_trust_scoring_def)

text \<open>
  C3. Configuration validation raises a configuration error if and only if an invariant
  is violated: some enabled platform has no API key or no base URL, or the trust-scoring
  weights sum to a total that differs from 1 by more than 0.001, or some badge threshold
  lies outside \<open>[0, 1]\<close>; otherwise it returns normally. In particular a configuration
  with the shipped default trust-scoring section (weights 0.25, 0.20, 0.20, 0.20, 0.15)
  and complete platforms validates without error.
\<close>

theorem validate_config_raises_iff_violated:
  "((\<exists>e. validate_config cfg = Inl e) \<longleftrightarrow> invariant_violated cfg) \<and>
   (validate_config cfg = Inr () \<longleftrightarrow> \<not> invariant_violated cfg) \<and>
   (trust_scoring cfg = default_trust_scoring \<and>
    \<not> list_ex platform_incomplete (map snd (platforms cfg))
      \<longrightarrow> validate_config cfg = Inr ())"
proof -
  have raises: "(\<exists>e. validate_config cfg = Inl e) \<longleftrightarrow> invariant_violated cfg"
    by (rule validate_config_raises)
  have ok: "validate_config cfg = Inr () \<longleftrightarrow> \<not> invariant_violated cfg"
  proof (cases "validate_config cfg")
    case (Inl e)
    with raises show ?thesis by auto
  next
    case (Inr u)
    with raises show ?thesis by auto
  qed
  have dflt: "validate_config cfg = Inr ()"
    if "trust_scoring cfg = default_trust_scoring"
       "\<not> list_ex platform_incomplete (map snd (platforms cfg))"
    using that default_weights_pass default_thresholds_pass ok
    by (simp add: invariant_violated_def)
  show ?thesis using raises ok dflt by blast
qed

theorem validate_config_raises_iff_violated_witness:
  "validate_config
     \<lparr>platforms = [(''inferloop'',
        \<lparr>enabled = True, base_url = Some ''https://api.example'', api_key = Some ''k'',
         timeout = 30, retry_attempts = 3, retry_delay = 1, custom_headers = []\<rparr>)],
      trust_scoring = default_trust_scoring\<rparr> = Inr () \<and>
   (\<exists>e. validate_config
     \<lparr>platforms = [],
      trust_scoring = default_trust_scoring
        \<lparr>weights := [(''quality'', 0.25), (''bias'', 0.20), (''security'', 0.20),
                     (''compliance'', 0.20), (''fairness'', 0.14)]\<rparr>\<rparr> = Inl e) \<and>
   (\<exists>e. validate_config
     \<lparr>platforms = [],
      trust_scoring = default_trust_scoring
        \<lparr>badge_thresholds := [(''basic'', 1.5)]\<rparr>\<rparr> = Inl e) \<and>
   (\<exists>e. validate_config
     \<lparr>platforms = [(''inferloop'',
        \<lparr>enabled = True, base_url = None, api_key = Some ''k'',
         timeout = 30, retry_attempts = 3, retry_delay = 1, custom_headers = []\<rparr>)],
      trust_scoring = default_trust_scoring\<rparr> = Inl e)"
proof -
  let ?p = "\<lparr>enabled = True, base_url = Some ''https://api.example'', api_key = Some ''k'',
         timeout = 30, retry_attempts = 3, retry_delay = 1, custom_headers = []\<rparr>"
  let ?q = "\<lparr>enabled = True, base_url = None, api_key = Some ''k'',
         timeout = 30, retry_attempts = 3, retry_delay = 1, custom_headers = []\<rparr>"
  let ?w = "default_trust_scoring
        \<lparr>weights := [(''quality'', 0.25), (''bias'', 0.20), (''security'', 0.20),
                     (''compliance'', 0.20), (''fairness'', 0.14)]\<rparr>"
  let ?t = "default_trust_scoring \<lparr>badge_thresholds := [(''basic'', 1.5)]\<rparr>"
  have a: "\<not> list_ex platform_incomplete (map snd [(''inferloop'', ?p)])"
    by (simp add: platform_incomplete_def)
  have b: "invariant_violated \<lparr>platforms = [], trust_scoring = ?w\<rparr>"
    by (simp add: invariant_violated_def weights_off_def)
  have c: "invariant_violated \<lparr>platforms = [], trust_scoring = ?t\<rparr>"
    by (simp add: invariant_violated_def threshold_outside_def)
  have d: "invariant_violated
     \<lparr>platforms = [(''inferloop'', ?q)], trust_scoring = default_trust_scoring\<rparr>"
    by (simp add: invariant_violated_def platform_incomplete_def)
  show ?thesis
    using validate_config_raises_iff_violated
            [of "\<lparr>platforms = [(''inferloop'', ?p)], trust_scoring = default_trust_scoring\<rparr>"]
          validate_config_raises_iff_violated [of "\<lparr>platforms = [], trust_scoring = ?w\<rparr>"]
          validate_config_raises_iff_violated [of "\<lparr>platforms = [], trust_scoring = ?t\<rparr>"]
          validate_config_raises_iff_violated
            [of "\<lparr>platforms = [(''inferloop'', ?q)], trust_scoring = default_trust_scoring\<rparr>"]
          a b c d
    by simp
qed

section \<open>Rate limiting: the token bucket\<close>

text \<open>
  Source: \<^verbatim>\<open>src/gatf/utils/rate_limiting.py\<close>. The clock \<^verbatim>\<open>time.time()\<close> is
  an argument of every operation that reads it; floats are \<^typ>\<open>real\<close>. A float
  division by zero raises \<^verbatim>\<open>ZeroDivisionError\<close> in Python and is written out.
  The lock serialises the calls, so the bucket is a state passed from call to call.
\<close>

datatype py_error = ZeroDivisionError | KeyError string

datatype RateLimitAlgorithm = TOKEN_BUCKET | SLIDING_WINDOW | FIXED_WINDOW | LEAKY_BUCKET

record RateLimitConfig =
  max_requests :: int
  time_window :: int
  algorithm :: RateLimitAlgorithm
  config_burst_size :: "int option"
  strict :: bool

record TokenBucket =
  capacity :: int
  refill_rate :: real
  burst_size :: int
  tokens :: real
  last_refill :: real

text \<open>
  \<^verbatim>\<open>TokenBucket.__init__\<close>; \<^verbatim>\<open>burst_size or capacity\<close> takes the capacity
  when the burst size is \<^verbatim>\<open>None\<close> or zero.
\<close>

definition TokenBucket_init :: "int \<Rightarrow> real \<Rightarrow> int option \<Rightarrow> real \<Rightarrow> TokenBucket" where
  "TokenBucket_init cap rate burst now =
     \<lparr>capacity = cap, refill_rate = rate,
      burst_size = (case burst of None \<Rightarrow> cap | Some k \<Rightarrow> if k = 0 then cap else k),
      tokens = real_of_int cap, last_refill = now\<rparr>"

text \<open>\<^verbatim>\<open>TokenBucket._refill\<close>.\<close>

definition refill :: "TokenBucket \<Rightarrow> real \<Rightarrow> TokenBucket" where
  "refill b now =
     (let elapsed = now - last_refill b;
          tokens_to_add = elapsed * refill_rate b
      in b\<lparr>tokens := min (real_of_int (capacity b)) (tokens b + tokens_to_add),
            last_refill := now\<rparr>)"

text \<open>
  \<^verbatim>\<open>TokenBucket.consume\<close>: the bucket after the call, and the returned pair
  \<^verbatim>\<open>(success, retry_after)\<close> or the error raised. The refill has been stored
  when the division raises.
\<close>

definition consume ::
  "TokenBucket \<Rightarrow> real \<Rightarrow> int \<Rightarrow> TokenBucket \<times> (py_error + bool \<times> real option)" where
  "consume b now n =
     (let b1 = refill b now in
      if tokens b1 \<ge> real_of_int n
      then (b1\<lparr>tokens := tokens b1 - real_of_int n\<rparr>, Inr (True, None))
      else
        (let tokens_needed = real_of_int n - tokens b1 in
         if refill_rate b1 = 0 then (b1, Inl ZeroDivisionError)
         else (b1, Inr (False, Some (tokens_needed / refill_rate b1)))))"

text \<open>
  The token-bucket branch of \<^verbatim>\<open>RateLimiter._create_limiter\<close>; the division of two
  ints raises on a zero time window.
\<close>

definition create_limiter :: "RateLimitConfig \<Rightarrow> real \<Rightarrow> py_error + TokenBucket" where
  "create_limiter config now =
     (if time_window config = 0 then Inl ZeroDivisionError
      else Inr (TokenBucket_init (max_requests config)
                  (real_of_int (max_requests config) / real_of_int (time_window config))
                  (config_burst_size config) now))"

text \<open>
  A caller making one \<^verbatim>\<open>consume\<close> call after the other on the same bucket, at the
  given clock readings and for the given amounts; the results in call order.
\<close>

fun consume_calls ::
  "TokenBucket \<Rightarrow> (real \<times> int) list \<Rightarrow> (py_error + bool \<times> real option) list" where
  "consume_calls b [] = []"
| "consume_calls b ((now, n) # rest) =
     (case consume b now n of (b', r) \<Rightarrow> r # consume_calls b' rest)"

text \<open>The tokens available to a call at clock reading \<open>now\<close>, as the specification
  words it: the stored tokens plus elapsed time times the rate, capped at the capacity.\<close>

definition available :: "TokenBucket \<Rightarrow> real \<Rightarrow> real" where
  "available b now =
     min (real_of_int (capacity b)) (tokens b + (now - last_refill b) * refill_rate b)"

lemma refill_available:
  "refill b now = b\<lparr>tokens := available b now, last_refill := now\<rparr>"
  by (simp add: refill_def available_def Let_def)

lemma consume_success:
  assumes "real_of_int n \<le> available b now"
  shows "consume b now n =
           (b\<lparr>tokens := available b now - real_of_int n, last_refill := now\<rparr>,
            Inr (True, None))"
  using assms by (simp add: consume_def refill_available Let_def)

lemma consume_failure:
  assumes "available b now < real_of_int n" "refill_rate b \<noteq> 0"
  shows "consume b now n =
           (b\<lparr>tokens := available b now, last_refill := now\<rparr>,
            Inr (False, Some ((real_of_int n - available b now) / refill_rate b)))"
  using assms by (simp add: consume_def refill_available Let_def not_le)

lemma consume_division_by_zero:
  assumes "available b now < real_of_int n" "refill_rate b = 0"
  shows "consume b now n =
           (b\<lparr>tokens := available b now, last_refill := now\<rparr>, Inl ZeroDivisionError)"
  using assms by (simp add: consume_def refill_available Let_def not_le)

text \<open>
  The state of the five-per-second bucket created at \<open>t0\<close> after \<open>k\<close> admitted
  unit consumes: at least \<open>5 - k\<close> tokens are left, and at most that plus what the
  time since \<open>t0\<close> has refilled.
\<close>

definition drained :: "nat \<Rightarrow> real \<Rightarrow> TokenBucket \<Rightarrow> bool" where
  "drained k t0 b =
     (capacity b = 5 \<and> refill_rate b = 5 \<and> t0 \<le> last_refill b \<and>
      5 - real k \<le> tokens b \<and> tokens b \<le> 5 - real k + 5 * (last_refill b - t0))"

lemma drained_step:
  assumes "drained k t0 b" "k < 5" "last_refill b \<le> now"
  shows "\<exists>b'. consume b now 1 = (b', Inr (True, None)) \<and> drained (Suc k) t0 b' \<and>
              last_refill b' = now"
proof -
  from assms have cap: "capacity b = 5" and rate: "refill_rate b = 5"
    and lo: "5 - real k \<le> tokens b"
    and hi: "tokens b \<le> 5 - real k + 5 * (last_refill b - t0)"
    and t0: "t0 \<le> last_refill b"
    by (simp_all add: drained_def)
  have el: "0 \<le> (now - last_refill b) * 5" using assms(3) by simp
  have k: "real k \<le> 4" using assms(2) by simp
  have av_lo: "5 - real k \<le> available b now"
    using lo el by (simp add: available_def cap rate)
  have av_hi: "available b now \<le> 5 - real k + 5 * (now - t0)"
    using hi by (simp add: available_def cap rate min_def algebra_simps)
  have "real_of_int 1 \<le> available b now" using av_lo k by simp
  from consume_success [OF this]
  have c: "consume b now 1 =
      (b\<lparr>tokens := available b now - 1, last_refill := now\<rparr>, Inr (True, None))"
    by simp
  have "drained (Suc k) t0 (b\<lparr>tokens := available b now - 1, last_refill := now\<rparr>)"
    using av_lo av_hi t0 assms(3) by (simp add: drained_def cap rate)
  with c show ?thesis by simp
qed

lemma drained_init:
  assumes "create_limiter
     \<lparr>max_requests = 5, time_window = 1, algorithm = TOKEN_BUCKET,
      config_burst_size = bs, strict = st\<rparr> t0 = Inr b"
  shows "drained 0 t0 b" "last_refill b = t0"
  using assms by (auto simp: create_limiter_def TokenBucket_init_def drained_def)

lemma drained_fail:
  assumes "drained 5 t0 b" "last_refill b \<le> now" "now < t0 + 1 / 5"
  shows "\<exists>b' ra. consume b now 1 = (b', Inr (False, Some ra)) \<and> 0 < ra \<and>
           (\<forall>later\<ge>now + ra. snd (consume b' later 1) = Inr (True, None))"
proof -
  from assms have cap: "capacity b = 5" and rate: "refill_rate b = 5"
    and hi: "tokens b \<le> 5 * (last_refill b - t0)"
    and lo: "0 \<le> tokens b"
    by (simp_all add: drained_def)
  define av where "av = available b now"
  have av_hi: "av \<le> 5 * (now - t0)"
    using hi by (simp add: av_def available_def cap rate min_def algebra_simps)
  then have av1: "av < 1" using assms(3) by simp
  define ra where "ra = (1 - av) / 5"
  define b' where "b' = b\<lparr>tokens := av, last_refill := now\<rparr>"
  have "available b now < real_of_int 1" using av1 by (simp add: av_def)
  moreover have "refill_rate b \<noteq> 0" by (simp add: rate)
  ultimately have c: "consume b now 1 = (b', Inr (False, Some ra))"
    using consume_failure [of b now 1] by (simp add: av_def ra_def b'_def rate)
  have ra: "0 < ra" using av1 by (simp add: ra_def)
  have again: "snd (consume b' later 1) = Inr (True, None)"
    if "now + ra \<le> later" for later
  proof -
    have "(1 - av) / 5 \<le> later - now" using that unfolding ra_def by linarith
    then have "1 - av \<le> (later - now) * 5" by (simp only: pos_divide_le_eq [of 5] zero_less_numeral)
    then have "1 \<le> av + (later - now) * 5" by simp
    then have "real_of_int 1 \<le> available b' later"
      by (simp add: available_def b'_def cap rate)
    from consume_success [OF this] show ?thesis by simp
  qed
  from c ra again show ?thesis by blast
qed

text \<open>
  C8. A token bucket created from a configuration with a nonzero time window has
  capacity \<open>max_requests\<close>, refill rate \<open>max_requests / time_window\<close> and starts full.
  On each consume the tokens available are the stored tokens plus elapsed time times the
  rate, capped at the capacity; a consume of \<open>n\<close> tokens succeeds exactly when at
  least \<open>n\<close> are available, and then subtracts \<open>n\<close>; otherwise, with a nonzero
  rate, it fails with \<open>retry_after = (n - available) / rate\<close> and stores the refill.
  Hence a limiter with \<open>max_requests = 5\<close> and \<open>time_window = 1\<close> admits five unit
  consumes made within a fifth of a second of its creation, fails the sixth with a
  positive \<open>retry_after\<close>, and admits a unit consume again once \<open>retry_after\<close> has
  elapsed.
\<close>

theorem token_bucket_consume:
  "(real_of_int n \<le> available b now \<longrightarrow>
      consume b now n =
        (b\<lparr>tokens := available b now - real_of_int n, last_refill := now\<rparr>,
         Inr (True, None))) \<and>
   (available b now < real_of_int n \<and> refill_rate b \<noteq> 0 \<longrightarrow>
      consume b now n =
        (b\<lparr>tokens := available b now, last_refill := now\<rparr>,
         Inr (False, Some ((real_of_int n - available b now) / refill_rate b)))) \<and>
   (time_window cfg \<noteq> 0 \<longrightarrow>
      (\<exists>b0. create_limiter cfg t0 = Inr b0 \<and>
         capacity b0 = max_requests cfg \<and>
         refill_rate b0 = real_of_int (max_requests cfg) / real_of_int (time_window cfg) \<and>
         tokens b0 = real_of_int (max_requests cfg) \<and> last_refill b0 = t0)) \<and>
   (t0 \<le> t1 \<and> t1 \<le> t2 \<and> t2 \<le> t3 \<and> t3 \<le> t4 \<and> t4 \<le> t5 \<and> t5 \<le> t6 \<and> t6 < t0 + 1 / 5 \<longrightarrow>
      (\<exists>b0 ra.
         create_limiter
           \<lparr>max_requests = 5, time_window = 1, algorithm = TOKEN_BUCKET,
            config_burst_size = bs, strict = st\<rparr> t0 = Inr b0 \<and>
         consume_calls b0 [(t1, 1), (t2, 1), (t3, 1), (t4, 1), (t5, 1), (t6, 1)] =
           [Inr (True, None), Inr (True, None), Inr (True, None), Inr (True, None),
            Inr (True, None), Inr (False, Some ra)] \<and>
         0 < ra \<and>
         (\<forall>t7\<ge>t6 + ra.
            consume_calls b0
              [(t1, 1), (t2, 1), (t3, 1), (t4, 1), (t5, 1), (t6, 1), (t7, 1)] =
              [Inr (True, None), Inr (True, None), Inr (True, None), Inr (True, None),
               Inr (True, None), Inr (False, Some ra), Inr (True, None)])))"
proof -
  have succ: "real_of_int n \<le> available b now \<longrightarrow>
      consume b now n =
        (b\<lparr>tokens := available b now - real_of_int n, last_refill := now\<rparr>,
         Inr (True, None))"
    using consume_success by blast
  have fail: "available b now < real_of_int n \<and> refill_rate b \<noteq> 0 \<longrightarrow>
      consume b now n =
        (b\<lparr>tokens := available b now, last_refill := now\<rparr>,
         Inr (False, Some ((real_of_int n - available b now) / refill_rate b)))"
    using consume_failure by blast
  have create: "time_window cfg \<noteq> 0 \<longrightarrow>
      (\<exists>b0. create_limiter cfg t0 = Inr b0 \<and>
         capacity b0 = max_requests cfg \<and>
         refill_rate b0 = real_of_int (max_requests cfg) / real_of_int (time_window cfg) \<and>
         tokens b0 = real_of_int (max_requests cfg) \<and> last_refill b0 = t0)"
    by (simp add: create_limiter_def TokenBucket_init_def)
  have scenario: "\<exists>b0 ra.
         create_limiter
           \<lparr>max_requests = 5, time_window = 1, algorithm = TOKEN_BUCKET,
            config_burst_size = bs, strict = st\<rparr> t0 = Inr b0 \<and>
         consume_calls b0 [(t1, 1), (t2, 1), (t3, 1), (t4, 1), (t5, 1), (t6, 1)] =
           [Inr (True, None), Inr (True, None), Inr (True, None), Inr (True, None),
            Inr (True, None), Inr (False, Some ra)] \<and>
         0 < ra \<and>
         (\<forall>t7\<ge>t6 + ra.
            consume_calls b0
              [(t1, 1), (t2, 1), (t3, 1), (t4, 1), (t5, 1), (t6, 1), (t7, 1)] =
              [Inr (True, None), Inr (True, None), Inr (True, None), Inr (True, None),
               Inr (True, None), Inr (False, Some ra), Inr (True, None)])"
    if t: "t0 \<le> t1" "t1 \<le> t2" "t2 \<le> t3" "t3 \<le> t4" "t4 \<le> t5" "t5 \<le> t6"
      "t6 < t0 + 1 / 5"
  proof -
    obtain b0 where b0: "create_limiter
           \<lparr>max_requests = 5, time_window = 1, algorithm = TOKEN_BUCKET,
            config_burst_size = bs, strict = st\<rparr> t0 = Inr b0"
      by (simp add: create_limiter_def)
    from drained_init [OF b0] have d0: "drained 0 t0 b0" and l0: "last_refill b0 = t0"
      by simp_all
    from drained_step [OF d0, of t1] t l0
    obtain b1 where c1: "consume b0 t1 1 = (b1, Inr (True, None))"
      and d1: "drained 1 t0 b1" and l1: "last_refill b1 = t1" by auto
    from drained_step [OF d1, of t2] t l1
    obtain b2 where c2: "consume b1 t2 1 = (b2, Inr (True, None))"
      and d2: "drained 2 t0 b2" and l2: "last_refill b2 = t2"
      by (auto simp: numeral_2_eq_2)
    from drained_step [OF d2, of t3] t l2
    obtain b3 where c3: "consume b2 t3 1 = (b3, Inr (True, None))"
      and d3: "drained 3 t0 b3" and l3: "last_refill b3 = t3"
      by (auto simp: numeral_3_eq_3 numeral_2_eq_2)
    from drained_step [OF d3, of t4] t l3
    obtain b4 where c4: "consume b3 t4 1 = (b4, Inr (True, None))"
      and d4: "drained (Suc 3) t0 b4" and l4: "last_refill b4 = t4"
      by auto
    from drained_step [OF d4, of t5] t l4
    obtain b5 where c5: "consume b4 t5 1 = (b5, Inr (True, None))"
      and d5: "drained (Suc (Suc 3)) t0 b5" and l5: "last_refill b5 = t5"
      by auto
    have "Suc (Suc 3) = 5" by simp
    with d5 have d5': "drained 5 t0 b5" by simp
    from drained_fail [OF d5', of t6] t l5
    obtain b6 ra where c6: "consume b5 t6 1 = (b6, Inr (False, Some ra))"
      and ra: "0 < ra"
      and again: "\<forall>later\<ge>t6 + ra. snd (consume b6 later 1) = Inr (True, None)"
      by auto
    have six: "consume_calls b0 [(t1, 1), (t2, 1), (t3, 1), (t4, 1), (t5, 1), (t6, 1)] =
           [Inr (True, None), Inr (True, None), Inr (True, None), Inr (True, None),
            Inr (True, None), Inr (False, Some ra)]"
      by (simp add: c1 c2 c3 c4 c5 c6)
    have seven: "consume_calls b0
              [(t1, 1), (t2, 1), (t3, 1), (t4, 1), (t5, 1), (t6, 1), (t7, 1)] =
              [Inr (True, None), Inr (True, None), Inr (True, None), Inr (True, None),
               Inr (True, None), Inr (False, Some ra), Inr (True, None)]"
      if "t6 + ra \<le> t7" for t7
    proof -
      from again that have "snd (consume b6 t7 1) = Inr (True, None)" by simp
      then obtain b7 where "consume b6 t7 1 = (b7, Inr (True, None))"
        by (cases "consume b6 t7 1") simp
      then show ?thesis
        by (simp add: c1 c2 c3 c4 c5 c6)
    qed
    from b0 six ra seven show ?thesis by blast
  qed
  from succ fail create scenario show ?thesis by blast
qed

theorem token_bucket_consume_witness:
  "(\<exists>b0 ra.
      create_limiter
        \<lparr>max_requests = 5, time_window = 1, algorithm = TOKEN_BUCKET,
         config_burst_size = None, strict = True\<rparr> 100 = Inr b0 \<and>
      consume_calls b0 [(100, 1), (100, 1), (100, 1), (100, 1), (100, 1), (100, 1)] =
        [Inr (True, None), Inr (True, None), Inr (True, None), Inr (True, None),
         Inr (True, None), Inr (False, Some ra)] \<and>
      0 < ra \<and>
      (\<forall>t7\<ge>100 + ra.
         consume_calls b0
           [(100, 1), (100, 1), (100, 1), (100, 1), (100, 1), (100, 1), (t7, 1)] =
           [Inr (True, None), Inr (True, None), Inr (True, None), Inr (True, None),
            Inr (True, None), Inr (False, Some ra), Inr (True, None)])) \<and>
   consume \<lparr>capacity = 5, refill_rate = 5, burst_size = 5, tokens = 0, last_refill = 100\<rparr>
       (1001 / 10) 2 =
     (\<lparr>capacity = 5, refill_rate = 5, burst_size = 5, tokens = 1 / 2,
       last_refill = 1001 / 10\<rparr>, Inr (False, Some (3 / 10)))"
proof -
  let ?b = "\<lparr>capacity = 5, refill_rate = 5, burst_size = 5, tokens = 0, last_refill = 100\<rparr>"
  have av: "available ?b (1001 / 10) = 1 / 2"
    by (simp add: available_def)
  have "(100::real) \<le> 100 \<and> (100::real) < 100 + 1 / 5" by simp
  with token_bucket_consume
         [of 2 ?b "1001 / 10" _ 100 100 100 100 100 100 100 None True]
  show ?thesis by (simp add: av)
qed

section \<open>The in-process memory cache\<close>

text \<open>
  Source: \<^verbatim>\<open>MemoryCache\<close> in \<^verbatim>\<open>src/gatf/utils/caching.py\<close>. The
  \<^verbatim>\<open>OrderedDict\<close> is an association list in insertion order with
  \<^const>\<open>AList.update\<close> (assignment keeps the position of a present key and appends a
  new one) and \<^const>\<open>AList.delete\<close>. The clock is an argument of the operations that
  read it. The reentrant lock serialises the calls, so the cache is a state passed from
  call to call.
\<close>

record 'v CacheEntry =
  key :: string
  "value" :: 'v
  created_at :: real
  ttl :: "int option"
  access_count :: int
  last_accessed :: "real option"

definition is_expired :: "'v CacheEntry \<Rightarrow> real \<Rightarrow> bool" where
  "is_expired e now =
     (case ttl e of None \<Rightarrow> False | Some t \<Rightarrow> now - created_at e > real_of_int t)"

definition touch :: "'v CacheEntry \<Rightarrow> real \<Rightarrow> 'v CacheEntry" where
  "touch e now = e\<lparr>access_count := access_count e + 1, last_accessed := Some now\<rparr>"

record 'v MemoryCache =
  max_size :: int
  eviction_policy :: string
  cache :: "(string \<times> 'v CacheEntry) list"
  hits :: int
  misses :: int
  evictions :: int
  sets :: int

definition MemoryCache_init :: "int \<Rightarrow> string \<Rightarrow> 'v MemoryCache" where
  "MemoryCache_init maxsize policy =
     \<lparr>max_size = maxsize, eviction_policy = policy, cache = [],
      hits = 0, misses = 0, evictions = 0, sets = 0\<rparr>"

text \<open>\<^verbatim>\<open>OrderedDict.move_to_end\<close>; a missing key raises \<^verbatim>\<open>KeyError\<close>.\<close>

definition move_to_end ::
  "string \<Rightarrow> (string \<times> 'a) list \<Rightarrow> py_error + (string \<times> 'a) list" where
  "move_to_end k xs =
     (case map_of xs k of
        None \<Rightarrow> Inl (KeyError k)
      | Some v \<Rightarrow> Inr (AList.delete k xs @ [(k, v)]))"

text \<open>\<^verbatim>\<open>OrderedDict.pop\<close> with one argument; a missing key raises.\<close>

definition pop :: "string \<Rightarrow> (string \<times> 'a) list \<Rightarrow> py_error + (string \<times> 'a) list" where
  "pop k xs =
     (case map_of xs k of
        None \<Rightarrow> Inl (KeyError k)
      | Some v \<Rightarrow> Inr (AList.delete k xs))"

text \<open>
  \<^verbatim>\<open>MemoryCache.get\<close>: the cache after the call and the value returned
  (\<^const>\<open>None\<close> for Python's \<^verbatim>\<open>None\<close>).
\<close>

definition get :: "'v MemoryCache \<Rightarrow> string \<Rightarrow> real \<Rightarrow> py_error + 'v MemoryCache \<times> 'v option" where
  "get c k now =
     (case map_of (cache c) k of
        None \<Rightarrow> Inr (c\<lparr>misses := misses c + 1\<rparr>, None)
      | Some entry \<Rightarrow>
          if is_expired entry now
          then (case pop k (cache c) of
                  Inl e \<Rightarrow> Inl e
                | Inr xs \<Rightarrow> Inr (c\<lparr>cache := xs, misses := misses c + 1\<rparr>, None))
          else
            (let touched = AList.update k (touch entry now) (cache c) in
             if eviction_policy c = ''lru''
             then (case move_to_end k touched of
                     Inl e \<Rightarrow> Inl e
                   | Inr xs \<Rightarrow> Inr (c\<lparr>cache := xs, hits := hits c + 1\<rparr>, Some (value entry)))
             else Inr (c\<lparr>cache := touched, hits := hits c + 1\<rparr>, Some (value entry))))"

text \<open>
  \<^verbatim>\<open>MemoryCache._evict\<close>. \<^verbatim>\<open>popitem(last=False)\<close> removes the first item;
  \<^verbatim>\<open>min(values, key=access_count)\<close> is the first entry of least access count,
  removed under the key stored in the entry. A policy other than the three named ones
  removes nothing and still counts an eviction.
\<close>

definition evict :: "'v MemoryCache \<Rightarrow> py_error + 'v MemoryCache" where
  "evict c =
     (if cache c = [] then Inr c
      else if eviction_policy c = ''lru''
        then Inr (c\<lparr>cache := tl (cache c), evictions := evictions c + 1\<rparr>)
      else if eviction_policy c = ''lfu''
        then (let min_entry = arg_min_list access_count (map snd (cache c)) in
              case pop (key min_entry) (cache c) of
                Inl e \<Rightarrow> Inl e
              | Inr xs \<Rightarrow> Inr (c\<lparr>cache := xs, evictions := evictions c + 1\<rparr>))
      else if eviction_policy c = ''fifo''
        then Inr (c\<lparr>cache := tl (cache c), evictions := evictions c + 1\<rparr>)
      else Inr (c\<lparr>evictions := evictions c + 1\<rparr>))"

text \<open>\<^verbatim>\<open>MemoryCache.set\<close>.\<close>

definition set_entry ::
  "'v MemoryCache \<Rightarrow> string \<Rightarrow> 'v \<Rightarrow> int option \<Rightarrow> real \<Rightarrow> py_error + 'v MemoryCache" where
  "set_entry c k v t now =
     (case (if int (length (cache c)) \<ge> max_size c \<and> map_of (cache c) k = None
            then evict c else Inr c) of
        Inl e \<Rightarrow> Inl e
      | Inr c1 \<Rightarrow>
          (let entry = \<lparr>key = k, value = v, created_at = now, ttl = t,
                        access_count = 0, last_accessed = None\<rparr>
           in Inr (c1\<lparr>cache := AList.update k entry (cache c1), sets := sets c1 + 1\<rparr>)))"

text \<open>\<^verbatim>\<open>MemoryCache.delete\<close>: the cache after the call and the returned flag.\<close>

definition delete :: "'v MemoryCache \<Rightarrow> string \<Rightarrow> py_error + 'v MemoryCache \<times> bool" where
  "delete c k =
     (if map_of (cache c) k \<noteq> None
      then (case pop k (cache c) of
              Inl e \<Rightarrow> Inl e
            | Inr xs \<Rightarrow> Inr (c\<lparr>cache := xs\<rparr>, True))
      else Inr (c, False))"

text \<open>A caller's sequence of calls on one cache.\<close>

datatype 'v cache_op =
    Get string real
  | Set string 'v "int option" real
  | Delete string

fun apply_op :: "'v MemoryCache \<Rightarrow> 'v cache_op \<Rightarrow> py_error + 'v MemoryCache" where
  "apply_op c (Get k now) = map_sum id fst (get c k now)"
| "apply_op c (Set k v t now) = set_entry c k v t now"
| "apply_op c (Delete k) = map_sum id fst (delete c k)"

fun apply_ops :: "'v MemoryCache \<Rightarrow> 'v cache_op list \<Rightarrow> py_error + 'v MemoryCache" where
  "apply_ops c [] = Inr c"
| "apply_ops c (x # xs) =
     (case apply_op c x of Inl e \<Rightarrow> Inl e | Inr c' \<Rightarrow> apply_ops c' xs)"

text \<open>The keys of the existing entries that a call has removed.\<close>

definition evicted_keys :: "'v MemoryCache \<Rightarrow> 'v MemoryCache \<Rightarrow> string list" where
  "evicted_keys before after =
     filter (\<lambda>k. map_of (cache after) k = None) (map fst (cache before))"

text \<open>
  What holds of every cache built by the operations: the keys are distinct, every entry
  is stored under its own key, and the size bound holds.
\<close>

definition keys_match :: "(string \<times> 'v CacheEntry) list \<Rightarrow> bool" where
  "keys_match xs = list_all (\<lambda>(k, e). key e = k) xs"

definition cache_inv :: "'v MemoryCache \<Rightarrow> bool" where
  "cache_inv c =
     (distinct (map fst (cache c)) \<and> keys_match (cache c) \<and>
      int (length (cache c)) \<le> max_size c)"

definition documented_policy :: "string \<Rightarrow> bool" where
  "documented_policy p = (p = ''lru'' \<or> p = ''lfu'' \<or> p = ''fifo'')"

lemma keys_match_delete: "keys_match xs \<Longrightarrow> keys_match (AList.delete k xs)"
  by (simp add: keys_match_def AList.delete_eq list_all_iff)

lemma keys_match_update: "keys_match xs \<Longrightarrow> key e = k \<Longrightarrow> keys_match (AList.update k e xs)"
  by (induction xs) (auto simp: keys_match_def)

lemma keys_match_lookup: "keys_match xs \<Longrightarrow> map_of xs k = Some e \<Longrightarrow> key e = k"
  by (auto simp: keys_match_def list_all_iff dest!: map_of_SomeD)

lemma length_removeAll_distinct:
  "distinct xs \<Longrightarrow> x \<in> set xs \<Longrightarrow> Suc (length (removeAll x xs)) = length xs"
  by (induction xs) auto

lemma filter_eq_distinct:
  "distinct xs \<Longrightarrow> x \<in> set xs \<Longrightarrow> filter (\<lambda>y. y = x) xs = [x]"
  by (induction xs) (auto simp: filter_empty_conv)

lemma filter_gone_removeAll:
  assumes "distinct xs" "x \<in> set xs" "k \<notin> set xs"
  shows "filter (\<lambda>y. y \<notin> set (removeAll x xs @ [k])) xs = [x]"
proof -
  have "filter (\<lambda>y. y \<notin> set (removeAll x xs @ [k])) xs = filter (\<lambda>y. y = x) xs"
    using assms(3) by (intro filter_cong) auto
  with assms show ?thesis by (simp add: filter_eq_distinct)
qed

lemma pop_present:
  "map_of xs k = Some v \<Longrightarrow> pop k xs = Inr (AList.delete k xs)"
  by (simp add: pop_def)

lemma evict_removes_one:
  assumes "distinct (map fst (cache c))" "keys_match (cache c)"
    "documented_policy (eviction_policy c)" "cache c \<noteq> []"
  shows "\<exists>victim c'. evict c = Inr c' \<and> victim \<in> set (map fst (cache c)) \<and>
           cache c' = AList.delete victim (cache c) \<and>
           max_size c' = max_size c \<and> eviction_policy c' = eviction_policy c \<and>
           evictions c' = evictions c + 1"
proof (cases "eviction_policy c = ''lfu''")
  case True
  define m where "m = arg_min_list access_count (map snd (cache c))"
  have "m \<in> set (map snd (cache c))"
    unfolding m_def using assms(4) by (intro arg_min_list_in) simp
  then obtain k where k: "(k, m) \<in> set (cache c)" by auto
  with assms(1) have look: "map_of (cache c) k = Some m" by simp
  with assms(2) have "key m = k" by (rule keys_match_lookup)
  with look have "pop (key m) (cache c) = Inr (AList.delete k (cache c))"
    by (simp add: pop_present)
  with True assms(4) have "evict c =
      Inr (c\<lparr>cache := AList.delete k (cache c), evictions := evictions c + 1\<rparr>)"
    by (simp add: evict_def m_def Let_def)
  moreover from k have "k \<in> set (map fst (cache c))" by force
  ultimately show ?thesis by auto
next
  case False
  with assms(3) have pol: "eviction_policy c = ''lru'' \<or> eviction_policy c = ''fifo''"
    by (auto simp: documented_policy_def)
  from assms(4) obtain k e rest where c: "cache c = (k, e) # rest"
    by (cases "cache c") auto
  with assms(1) have "k \<notin> fst ` set rest" by auto
  then have "AList.delete k (cache c) = rest" by (simp add: c)
  with pol c have "evict c =
      Inr (c\<lparr>cache := AList.delete k (cache c), evictions := evictions c + 1\<rparr>)"
    by (auto simp: evict_def)
  with c show ?thesis by auto
qed

lemma keys_of_update_new:
  "map_of xs k = None \<Longrightarrow> map fst (AList.update k e xs) = map fst xs @ [k]"
  by (simp add: update_keys map_of_eq_None_iff)

lemma keys_of_update_present:
  "map_of xs k \<noteq> None \<Longrightarrow> map fst (AList.update k e xs) = map fst xs"
  by (simp add: update_keys map_of_eq_None_iff)

lemma length_keys: "length (map fst xs) = length xs"
  by simp

lemma set_entry_inv:
  assumes inv: "cache_inv c" and pol: "documented_policy (eviction_policy c)"
    and size: "1 \<le> max_size c"
  shows "\<exists>c'. set_entry c k v t now = Inr c' \<and> cache_inv c' \<and>
           max_size c' = max_size c \<and> eviction_policy c' = eviction_policy c \<and>
           length (evicted_keys c c') =
             (if max_size c \<le> int (length (cache c)) \<and> map_of (cache c) k = None
              then 1 else 0) \<and>
           evictions c' =
             (if max_size c \<le> int (length (cache c)) \<and> map_of (cache c) k = None
              then evictions c + 1 else evictions c)"
proof -
  from inv have dist: "distinct (map fst (cache c))" and km: "keys_match (cache c)"
    and le: "int (length (cache c)) \<le> max_size c"
    by (simp_all add: cache_inv_def)
  define entry :: "'a CacheEntry" where
    "entry = \<lparr>key = k, value = v, created_at = now, ttl = t,
              access_count = 0, last_accessed = None\<rparr>"
  have ek: "key entry = k" by (simp add: entry_def)
  show ?thesis
  proof (cases "max_size c \<le> int (length (cache c)) \<and> map_of (cache c) k = None")
    case True
    then have full: "max_size c \<le> int (length (cache c))"
      and new: "map_of (cache c) k = None" by simp_all
    from full size have "cache c \<noteq> []" by auto
    from evict_removes_one [OF dist km pol this]
    obtain victim c1 where ev: "evict c = Inr c1"
      and vic: "victim \<in> set (map fst (cache c))"
      and c1: "cache c1 = AList.delete victim (cache c)"
      and same: "max_size c1 = max_size c" "eviction_policy c1 = eviction_policy c"
      and cnt: "evictions c1 = evictions c + 1"
      by blast
    define c' where "c' = c1\<lparr>cache := AList.update k entry (cache c1), sets := sets c1 + 1\<rparr>"
    have run: "set_entry c k v t now = Inr c'"
      using True ev by (simp add: set_entry_def c'_def entry_def Let_def)
    have knew: "k \<notin> set (map fst (cache c))"
      using new by (simp add: map_of_eq_None_iff)
    have keys1: "map fst (cache c1) = removeAll victim (map fst (cache c))"
      by (simp add: c1 delete_keys)
    have new1: "map_of (cache c1) k = None"
      using knew keys1 by (metis map_of_eq_None_iff set_map set_removeAll Diff_iff)
    have keys': "map fst (cache c') = removeAll victim (map fst (cache c)) @ [k]"
      using keys_of_update_new [OF new1] by (simp add: c'_def keys1)
    have "Suc (length (removeAll victim (map fst (cache c)))) = length (map fst (cache c))"
      using dist vic by (rule length_removeAll_distinct)
    then have "length (map fst (cache c')) = length (cache c)"
      by (simp add: keys')
    then have len: "length (cache c') = length (cache c)" by simp
    have d': "distinct (map fst (cache c'))"
      using dist knew by (simp add: keys' distinct_removeAll)
    have km': "keys_match (cache c')"
      using km ek by (simp add: c'_def c1 keys_match_update keys_match_delete)
    have inv': "cache_inv c'"
      using d' km' len le same by (simp add: cache_inv_def c'_def)
    have "evicted_keys c c' =
        filter (\<lambda>y. y \<notin> set (map fst (cache c'))) (map fst (cache c))"
      by (simp add: evicted_keys_def map_of_eq_None_iff)
    also have "\<dots> = [victim]"
      unfolding keys' using dist vic knew by (rule filter_gone_removeAll)
    finally have gone: "evicted_keys c c' = [victim]" .
    from run inv' same gone cnt True show ?thesis
      by (auto simp: c'_def)
  next
    case False
    define c' where "c' = c\<lparr>cache := AList.update k entry (cache c), sets := sets c + 1\<rparr>"
    have run: "set_entry c k v t now = Inr c'"
      using False by (auto simp: set_entry_def c'_def entry_def Let_def)
    have sub: "set (map fst (cache c)) \<subseteq> set (map fst (cache c'))"
      by (auto simp: c'_def update_keys)
    have d': "distinct (map fst (cache c'))"
      using dist by (simp add: c'_def distinct_update)
    have km': "keys_match (cache c')"
      using km ek by (simp add: c'_def keys_match_update)
    have len: "int (length (cache c')) \<le> max_size c"
    proof (cases "map_of (cache c) k = None")
      case True
      with False have "int (length (cache c)) < max_size c" by simp
      moreover have "length (map fst (cache c')) = Suc (length (cache c))"
        using keys_of_update_new [OF True, of entry] by (simp add: c'_def)
      ultimately show ?thesis by simp
    next
      case present: False
      have "length (map fst (cache c')) = length (cache c)"
        using keys_of_update_present [OF present, of entry] by (simp add: c'_def)
      with le show ?thesis by simp
    qed
    have inv': "cache_inv c'"
      using d' km' len by (simp add: cache_inv_def c'_def)
    have gone: "evicted_keys c c' = []"
      using sub by (auto simp: evicted_keys_def map_of_eq_None_iff filter_empty_conv)
    from run inv' gone False show ?thesis
      by (auto simp: c'_def)
  qed
qed

lemma length_delete_alist: "length (AList.delete k xs) \<le> length xs"
  by (rule length_delete_le)

lemma move_to_end_inv:
  assumes "distinct (map fst xs)" "keys_match xs" "map_of xs k = Some e"
  shows "\<exists>ys. move_to_end k xs = Inr ys \<and> distinct (map fst ys) \<and> keys_match ys \<and>
           length ys = length xs"
proof -
  define ys where "ys = AList.delete k xs @ [(k, e)]"
  have run: "move_to_end k xs = Inr ys"
    using assms(3) by (simp add: move_to_end_def ys_def)
  from assms(3) have kin: "k \<in> set (map fst xs)"
    by (metis map_of_eq_None_iff option.distinct(1) set_map)
  from assms(2,3) have "key e = k" by (rule keys_match_lookup)
  then have km: "keys_match ys"
    using assms(2) keys_match_delete [of xs k]
    by (simp add: ys_def keys_match_def)
  have keys: "map fst ys = removeAll k (map fst xs) @ [k]"
    by (simp add: ys_def delete_keys)
  have d: "distinct (map fst ys)"
    using assms(1) by (simp add: keys distinct_removeAll)
  have "Suc (length (removeAll k (map fst xs))) = length (map fst xs)"
    using assms(1) kin by (rule length_removeAll_distinct)
  then have "length (map fst ys) = length (map fst xs)" by (simp add: keys)
  then have "length ys = length xs" by simp
  with run d km show ?thesis by blast
qed

lemma get_inv:
  assumes inv: "cache_inv c"
  shows "\<exists>c' r. get c k now = Inr (c', r) \<and> cache_inv c' \<and>
           max_size c' = max_size c \<and> eviction_policy c' = eviction_policy c"
proof -
  from inv have dist: "distinct (map fst (cache c))" and km: "keys_match (cache c)"
    and le: "int (length (cache c)) \<le> max_size c"
    by (simp_all add: cache_inv_def)
  show ?thesis
  proof (cases "map_of (cache c) k")
    case None
    with inv show ?thesis by (simp add: get_def cache_inv_def)
  next
    case (Some entry)
    show ?thesis
    proof (cases "is_expired entry now")
      case True
      have "int (length (AList.delete k (cache c))) \<le> max_size c"
        using le length_delete_le [of k "cache c"] by linarith
      then have "cache_inv (c\<lparr>cache := AList.delete k (cache c), misses := misses c + 1\<rparr>)"
        using dist km by (simp add: cache_inv_def distinct_delete keys_match_delete)
      with Some True show ?thesis
        by (simp add: get_def pop_present)
    next
      case False
      define touched where "touched = AList.update k (touch entry now) (cache c)"
      have tk: "key (touch entry now) = k"
        using keys_match_lookup [OF km Some] by (simp add: touch_def)
      have td: "distinct (map fst touched)"
        using dist by (simp add: touched_def distinct_update)
      have tm: "keys_match touched"
        using km tk by (simp add: touched_def keys_match_update)
      have "map_of (cache c) k \<noteq> None" using Some by simp
      from keys_of_update_present [OF this, of "touch entry now"]
      have "length (map fst touched) = length (map fst (cache c))"
        by (simp add: touched_def)
      then have tl: "length touched = length (cache c)" by simp
      have look: "map_of touched k = Some (touch entry now)"
        by (simp add: touched_def update_conv')
      show ?thesis
      proof (cases "eviction_policy c = ''lru''")
        case True
        from move_to_end_inv [OF td tm look]
        obtain ys where ys: "move_to_end k touched = Inr ys" "distinct (map fst ys)"
          "keys_match ys" "length ys = length touched" by blast
        then have "cache_inv (c\<lparr>cache := ys, hits := hits c + 1\<rparr>)"
          using le tl by (simp add: cache_inv_def)
        with Some False True ys(1) show ?thesis
          by (simp add: get_def Let_def touched_def)
      next
        case nolru: False
        have "cache_inv (c\<lparr>cache := touched, hits := hits c + 1\<rparr>)"
          using td tm tl le by (simp add: cache_inv_def)
        with Some False nolru show ?thesis
          by (simp add: get_def Let_def touched_def)
      qed
    qed
  qed
qed

lemma delete_inv:
  assumes inv: "cache_inv c"
  shows "\<exists>c' r. delete c k = Inr (c', r) \<and> cache_inv c' \<and>
           max_size c' = max_size c \<and> eviction_policy c' = eviction_policy c"
proof (cases "map_of (cache c) k")
  case None
  with inv show ?thesis by (auto simp: delete_def)
next
  case (Some e)
  from inv have dist: "distinct (map fst (cache c))" and km: "keys_match (cache c)"
    and le: "int (length (cache c)) \<le> max_size c"
    by (simp_all add: cache_inv_def)
  have "int (length (AList.delete k (cache c))) \<le> max_size c"
    using le length_delete_le [of k "cache c"] by linarith
  then have "cache_inv (c\<lparr>cache := AList.delete k (cache c)\<rparr>)"
    using dist km by (simp add: cache_inv_def distinct_delete keys_match_delete)
  with Some show ?thesis by (auto simp: delete_def pop_present)
qed

lemma apply_op_inv:
  assumes "cache_inv c" "documented_policy (eviction_policy c)" "1 \<le> max_size c"
  shows "\<exists>c'. apply_op c x = Inr c' \<and> cache_inv c' \<and>
           max_size c' = max_size c \<and> eviction_policy c' = eviction_policy c"
proof (cases x)
  case (Get k now)
  from get_inv [OF assms(1), of k now] show ?thesis
    by (auto simp: Get)
next
  case (Set k v t now)
  from set_entry_inv [OF assms, of k v t now] show ?thesis
    by (auto simp: Set)
next
  case (Delete k)
  from delete_inv [OF assms(1), of k] show ?thesis
    by (auto simp: Delete)
qed

lemma apply_ops_inv:
  assumes "cache_inv c" "documented_policy (eviction_policy c)" "1 \<le> max_size c"
  shows "\<exists>c'. apply_ops c xs = Inr c' \<and> cache_inv c' \<and>
           max_size c' = max_size c \<and> eviction_policy c' = eviction_policy c"
  using assms
proof (induction xs arbitrary: c)
  case Nil
  then show ?case by simp
next
  case (Cons x xs)
  from apply_op_inv [OF Cons.prems, of x]
  obtain c1 where c1: "apply_op c x = Inr c1" "cache_inv c1"
    "max_size c1 = max_size c" "eviction_policy c1 = eviction_policy c" by blast
  with Cons.prems have "documented_policy (eviction_policy c1)" "1 \<le> max_size c1"
    by simp_all
  from Cons.IH [OF c1(2) this] c1 show ?case by auto
qed

lemma cache_inv_init: "0 \<le> n \<Longrightarrow> cache_inv (MemoryCache_init n p)"
  by (simp add: cache_inv_def MemoryCache_init_def keys_match_def)

text \<open>
  The policy is a free string in the constructor. With a string outside the documented
  three, \<^const>\<open>evict\<close> removes nothing, and the bound is lost.
\<close>

lemma undocumented_policy_grows:
  "\<exists>c. apply_ops (MemoryCache_init 1 ''mru'')
          [Set ''a'' (1::nat) None 0, Set ''b'' 2 None 1] = Inr c \<and>
        map fst (cache c) = [''a'', ''b''] \<and> max_size c = 1"
  by (simp add: MemoryCache_init_def set_entry_def evict_def Let_def)

text \<open>
  C10. For every \<open>max_size \<ge> 1\<close>, each of the eviction policies the constructor
  documents (\<open>lru\<close>, \<open>lfu\<close>, \<open>fifo\<close>) and every sequence of get, set and delete
  calls on a new cache, no call raises and the number of stored entries does not exceed
  \<open>max_size\<close> (the sequence is arbitrary, so the bound holds after every call). A set
  call on such a cache removes exactly one existing entry, and counts one eviction,
  precisely when the cache is full and the key is not present; otherwise it removes and
  counts nothing, in particular when it overwrites a present key.
\<close>

theorem memory_cache_size_bound:
  "1 \<le> n \<and> documented_policy p \<longrightarrow>
     (\<exists>c. apply_ops (MemoryCache_init n p) ops = Inr c \<and>
        int (length (cache c)) \<le> n \<and>
        (\<forall>k v t now. \<exists>c'. set_entry c k v t now = Inr c' \<and>
           int (length (cache c')) \<le> n \<and>
           length (evicted_keys c c') =
             (if n \<le> int (length (cache c)) \<and> map_of (cache c) k = None then 1 else 0) \<and>
           evictions c' =
             (if n \<le> int (length (cache c)) \<and> map_of (cache c) k = None
              then evictions c + 1 else evictions c) \<and>
           (map_of (cache c) k \<noteq> None \<longrightarrow> evicted_keys c c' = [])))"
proof
  assume a: "1 \<le> n \<and> documented_policy p"
  then have init: "cache_inv (MemoryCache_init n p :: 'a MemoryCache)"
    by (intro cache_inv_init) simp
  have p0: "documented_policy (eviction_policy (MemoryCache_init n p :: 'a MemoryCache))"
    and n0: "1 \<le> max_size (MemoryCache_init n p :: 'a MemoryCache)"
    using a by (simp_all add: MemoryCache_init_def)
  from apply_ops_inv [OF init p0 n0, of ops]
  obtain c where c: "apply_ops (MemoryCache_init n p) ops = Inr c" "cache_inv c"
    "max_size c = n" "documented_policy (eviction_policy c)"
    using a by (auto simp: MemoryCache_init_def)
  have bound: "int (length (cache c)) \<le> n"
    using c(2,3) by (simp add: cache_inv_def)
  have set_ok: "\<exists>c'. set_entry c k v t now = Inr c' \<and>
           int (length (cache c')) \<le> n \<and>
           length (evicted_keys c c') =
             (if n \<le> int (length (cache c)) \<and> map_of (cache c) k = None then 1 else 0) \<and>
           evictions c' =
             (if n \<le> int (length (cache c)) \<and> map_of (cache c) k = None
              then evictions c + 1 else evictions c) \<and>
           (map_of (cache c) k \<noteq> None \<longrightarrow> evicted_keys c c' = [])"
    for k v t now
  proof -
    have "1 \<le> max_size c" using a c(3) by simp
    from set_entry_inv [OF c(2) c(4) this, of k v t now]
    obtain c' where c': "set_entry c k v t now = Inr c'" "cache_inv c'"
      "max_size c' = max_size c"
      "length (evicted_keys c c') =
             (if max_size c \<le> int (length (cache c)) \<and> map_of (cache c) k = None
              then 1 else 0)"
      "evictions c' =
             (if max_size c \<le> int (length (cache c)) \<and> map_of (cache c) k = None
              then evictions c + 1 else evictions c)"
      by blast
    have "int (length (cache c')) \<le> n"
      using c'(2,3) c(3) by (simp add: cache_inv_def)
    moreover have "evicted_keys c c' = []" if "map_of (cache c) k \<noteq> None"
      using c'(4) that by simp
    ultimately show ?thesis using c' c(3) by auto
  qed
  from c(1) bound set_ok show "\<exists>c. apply_ops (MemoryCache_init n p) ops = Inr c \<and>
        int (length (cache c)) \<le> n \<and>
        (\<forall>k v t now. \<exists>c'. set_entry c k v t now = Inr c' \<and>
           int (length (cache c')) \<le> n \<and>
           length (evicted_keys c c') =
             (if n \<le> int (length (cache c)) \<and> map_of (cache c) k = None then 1 else 0) \<and>
           evictions c' =
             (if n \<le> int (length (cache c)) \<and> map_of (cache c) k = None
              then evictions c + 1 else evictions c) \<and>
           (map_of (cache c) k \<noteq> None \<longrightarrow> evicted_keys c c' = []))"
    by blast
qed

theorem memory_cache_size_bound_witness:
  "(1::int) \<le> 2 \<and> documented_policy ''lru'' \<and>
   (\<exists>c. apply_ops (MemoryCache_init 2 ''lru'')
          [Set ''a'' (1::nat) None 0, Set ''b'' 2 None 1, Get ''a'' 2, Set ''c'' 3 None 3]
        = Inr c \<and>
      map fst (cache c) = [''a'', ''c''] \<and> evictions c = 1 \<and>
      int (length (cache c)) \<le> 2)"
proof -
  let ?ops = "[Set ''a'' (1::nat) None 0, Set ''b'' 2 None 1, Get ''a'' 2, Set ''c'' 3 None 3]"
  have pol: "documented_policy ''lru''" by (simp add: documented_policy_def)
  have run: "map_sum id (\<lambda>c. (map fst (cache c), evictions c))
               (apply_ops (MemoryCache_init 2 ''lru'') ?ops) = Inr ([''a'', ''c''], 1)"
    by (simp add: MemoryCache_init_def set_entry_def get_def evict_def move_to_end_def
          pop_def is_expired_def touch_def Let_def)
  from memory_cache_size_bound [of 2 "''lru''" ?ops] pol
  obtain c where c: "apply_ops (MemoryCache_init 2 ''lru'') ?ops = Inr c"
    "int (length (cache c)) \<le> 2" by auto
  with run have "map fst (cache c) = [''a'', ''c''] \<and> evictions c = 1" by simp
  with c pol show ?thesis by simp
qed

section \<open>VOS primitives\<close>

text \<open>
  Source: \<^verbatim>\<open>src/gatf_vos/vos_primitives.py\<close>. A raised exception is a value:
  \<open>Exception msg\<close> is an instance of Python's class \<^verbatim>\<open>Exception\<close> (or of a
  subclass) whose \<^verbatim>\<open>str\<close> is \<open>msg\<close>; \<open>BaseException msg\<close> is an instance of
  \<^verbatim>\<open>BaseException\<close> outside \<^verbatim>\<open>Exception\<close> (a cancellation, a keyboard
  interrupt, a system exit), which \<^verbatim>\<open>except Exception\<close> does not catch. The
  coroutines are awaited one after the other, so a call is a function from the state of
  the world \<open>'w\<close> before it to its outcome and the state after it.
\<close>

datatype py_exception = Exception string | BaseException string

datatype PrimitiveType =
    DETECTION | CORRECTION | UNCERTAINTY | COORDINATION | TRUST
  | MEMORY | HANDOFF | WORKFLOW | COMPLIANCE | BENCHMARK

datatype PrimitiveStatus = PENDING | RUNNING | COMPLETED | FAILED | CANCELLED

text \<open>
  Python values (\<^verbatim>\<open>Any\<close>) as far as the primitives build and inspect them, and
  \<^verbatim>\<open>PrimitiveResult\<close>; the \<^verbatim>\<open>timestamp\<close> field (the clock at construction) is
  left out.
\<close>

datatype pyval =
    PyNone
  | PyNum real
  | PyStr string
  | PyList "pyval list"
  | PyDict "(string \<times> pyval) list"
  | PyResult PrimitiveResult
and PrimitiveResult =
  PrimitiveResult
    (status: PrimitiveStatus)
    (data: pyval)
    (errors: "string list")
    (warnings: "string list")
    (metrics: "(string \<times> pyval) list")
    (duration_ms: "real option")

text \<open>\<^verbatim>\<open>dict.update\<close> on insertion-ordered dicts.\<close>

definition dict_update :: "(string \<times> 'v) list \<Rightarrow> (string \<times> 'v) list \<Rightarrow> (string \<times> 'v) list" where
  "dict_update d other = fold (\<lambda>(k, v). AList.update k v) other d"

text \<open>\<^verbatim>\<open>dict.get(key, default)\<close>.\<close>

definition dict_get :: "('k \<times> 'v) list \<Rightarrow> 'k \<Rightarrow> 'v \<Rightarrow> 'v" where
  "dict_get d k dflt = (case map_of d k of None \<Rightarrow> dflt | Some v \<Rightarrow> v)"

text \<open>\<^verbatim>\<open>len\<close>: a \<^verbatim>\<open>TypeError\<close> on a value without a length.\<close>

fun py_len :: "pyval \<Rightarrow> py_exception + nat" where
  "py_len (PyStr s) = Inr (length s)"
| "py_len (PyList xs) = Inr (length xs)"
| "py_len (PyDict d) = Inr (length d)"
| "py_len _ = Inl (Exception ''object has no len()'')"

text \<open>
  \<^verbatim>\<open>VOSPrimitive\<close>: its name, its type and its \<^verbatim>\<open>execute\<close>, which is
  abstract in the base class. The keyword arguments are passed on unchanged.
\<close>

type_synonym kwargs = "(string \<times> pyval) list"

type_synonym ('c, 'w) execute_fn =
  "'c \<Rightarrow> kwargs \<Rightarrow> 'w \<Rightarrow> (py_exception + PrimitiveResult) \<times> 'w"

record ('c, 'w) VOSPrimitive =
  name :: string
  primitive_type :: PrimitiveType
  execute :: "('c, 'w) execute_fn"

subsection \<open>The composed primitive\<close>

text \<open>
  The loop of \<^verbatim>\<open>ComposedPrimitive.execute\<close> with its four accumulators. An
  exception raised by a member's \<^verbatim>\<open>execute\<close> is not caught and leaves the loop.
\<close>

fun composed_loop ::
  "('c, 'w) VOSPrimitive list \<Rightarrow> 'c \<Rightarrow> kwargs \<Rightarrow>
   PrimitiveResult list \<Rightarrow> (string \<times> pyval) list \<Rightarrow> string list \<Rightarrow> string list \<Rightarrow>
   'w \<Rightarrow> (py_exception + PrimitiveResult) \<times> 'w" where
  "composed_loop [] context kw results combined_metrics all_errors all_warnings w =
     (Inr (PrimitiveResult COMPLETED (PyList (map PyResult results))
             all_errors all_warnings combined_metrics None), w)"
| "composed_loop (primitive # rest) context kw results combined_metrics
       all_errors all_warnings w =
     (case execute primitive context kw w of
        (Inl e, w') \<Rightarrow> (Inl e, w')
      | (Inr result, w') \<Rightarrow>
          (let results' = results @ [result];
               combined_metrics' = dict_update combined_metrics (metrics result);
               all_errors' = all_errors @ errors result;
               all_warnings' = all_warnings @ warnings result
           in if status result = FAILED
              then (Inr (PrimitiveResult FAILED (PyList (map PyResult results'))
                           all_errors' all_warnings' combined_metrics' None), w')
              else composed_loop rest context kw results' combined_metrics'
                     all_errors' all_warnings' w'))"

definition composed_execute ::
  "('c, 'w) VOSPrimitive list \<Rightarrow> ('c, 'w) execute_fn" where
  "composed_execute primitives context kw w =
     composed_loop primitives context kw [] [] [] [] w"

text \<open>\<^verbatim>\<open>', '.join\<close> of a list of strings.\<close>

fun join_comma :: "string list \<Rightarrow> string" where
  "join_comma [] = []"
| "join_comma [s] = s"
| "join_comma (s # t # rest) = s @ '', '' @ join_comma (t # rest)"

text \<open>The constructor of \<^verbatim>\<open>ComposedPrimitive\<close>, and \<^verbatim>\<open>VOSPrimitive.compose\<close>.\<close>

definition ComposedPrimitive :: "('c, 'w) VOSPrimitive list \<Rightarrow> ('c, 'w) VOSPrimitive" where
  "ComposedPrimitive primitives =
     \<lparr>name = ''Composed('' @ join_comma (map name primitives) @ '')'',
      primitive_type = WORKFLOW,
      execute = composed_execute primitives\<rparr>"

definition compose ::
  "('c, 'w) VOSPrimitive \<Rightarrow> ('c, 'w) VOSPrimitive \<Rightarrow> ('c, 'w) VOSPrimitive" where
  "compose self other = ComposedPrimitive [self, other]"













subsection \<open>The ten specializations\<close>

text \<open>
  A specialization narrows \<^verbatim>\<open>execute\<close> to one abstract operation
  (\<^verbatim>\<open>detect\<close>, \<^verbatim>\<open>correct\<close>, \<^verbatim>\<open>quantify\<close>, \<^verbatim>\<open>coordinate\<close>,
  \<^verbatim>\<open>calculate_trust\<close>, \<^verbatim>\<open>manage_memory\<close>, \<^verbatim>\<open>validate_handoff\<close>,
  \<^verbatim>\<open>validate_workflow\<close>, \<^verbatim>\<open>validate_compliance\<close>, \<^verbatim>\<open>run_benchmark\<close>). The
  operation is a field of the model: it takes its positional arguments and the context
  and returns a value or raises. The registered callbacks are a dict from event name to a
  list of callables.
\<close>

type_synonym ('c, 'w) operation_fn =
  "pyval list \<Rightarrow> 'c \<Rightarrow> 'w \<Rightarrow> (py_exception + pyval) \<times> 'w"

type_synonym 'w callback = "pyval \<Rightarrow> 'w \<Rightarrow> (py_exception + unit) \<times> 'w"

record ('c, 'w) specialization =
  spec_name :: string
  kind :: PrimitiveType
  callbacks :: "(string \<times> 'w callback list) list"
  operation :: "('c, 'w) operation_fn"

text \<open>\<^verbatim>\<open>_trigger_callbacks\<close>: the callbacks of the event in registration order; a
  raising callback ends the loop.\<close>

fun run_callbacks :: "'w callback list \<Rightarrow> pyval \<Rightarrow> 'w \<Rightarrow> (py_exception + unit) \<times> 'w" where
  "run_callbacks [] d w = (Inr (), w)"
| "run_callbacks (cb # rest) d w =
     (case cb d w of
        (Inl e, w') \<Rightarrow> (Inl e, w')
      | (Inr _, w') \<Rightarrow> run_callbacks rest d w')"

definition trigger_callbacks ::
  "(string \<times> 'w callback list) list \<Rightarrow> string \<Rightarrow> pyval \<Rightarrow> 'w \<Rightarrow> (py_exception + unit) \<times> 'w" where
  "trigger_callbacks cbs event d w =
     (case map_of cbs event of
        None \<Rightarrow> (Inr (), w)
      | Some fs \<Rightarrow> run_callbacks fs d w)"

text \<open>The arguments each \<^verbatim>\<open>execute\<close> reads from the keyword arguments for its
  operation, with the defaults of the source.\<close>

fun op_args :: "PrimitiveType \<Rightarrow> kwargs \<Rightarrow> pyval list" where
  "op_args DETECTION kw = [dict_get kw ''input_data'' PyNone]"
| "op_args CORRECTION kw = [dict_get kw ''detection_result'' PyNone]"
| "op_args UNCERTAINTY kw = [dict_get kw ''input_data'' PyNone]"
| "op_args COORDINATION kw =
     [dict_get kw ''agents'' (PyList []), dict_get kw ''task'' (PyDict [])]"
| "op_args TRUST kw =
     [dict_get kw ''agent_id'' PyNone, dict_get kw ''validation_results'' (PyDict [])]"
| "op_args MEMORY kw =
     [dict_get kw ''operation'' (PyStr ''read''), dict_get kw ''data'' PyNone]"
| "op_args HANDOFF kw =
     [dict_get kw ''from_agent'' PyNone, dict_get kw ''to_agent'' PyNone,
      dict_get kw ''context_data'' (PyDict [])]"
| "op_args WORKFLOW kw = [dict_get kw ''workflow_definition'' (PyDict [])]"
| "op_args COMPLIANCE kw =
     [dict_get kw ''data'' PyNone, dict_get kw ''regulations'' (PyList [])]"
| "op_args BENCHMARK kw =
     [dict_get kw ''test_suite'' PyNone, dict_get kw ''target'' PyNone]"

text \<open>The event each \<^verbatim>\<open>execute\<close> triggers, and the data it passes.\<close>

fun event_name :: "PrimitiveType \<Rightarrow> string" where
  "event_name DETECTION = ''detection_complete''"
| "event_name CORRECTION = ''correction_complete''"
| "event_name UNCERTAINTY = ''uncertainty_quantified''"
| "event_name COORDINATION = ''coordination_complete''"
| "event_name TRUST = ''trust_calculated''"
| "event_name MEMORY = ''memory_operation_complete''"
| "event_name HANDOFF = ''handoff_validated''"
| "event_name WORKFLOW = ''workflow_validated''"
| "event_name COMPLIANCE = ''compliance_validated''"
| "event_name BENCHMARK = ''benchmark_complete''"

definition event_data :: "PrimitiveType \<Rightarrow> kwargs \<Rightarrow> pyval \<Rightarrow> pyval" where
  "event_data k kw res =
     (if k = TRUST
      then PyDict [(''agent_id'', dict_get kw ''agent_id'' PyNone), (''trust_score'', res)]
      else res)"

text \<open>
  The \<^verbatim>\<open>return PrimitiveResult(...)\<close> of each \<^verbatim>\<open>execute\<close>, evaluated inside
  the \<^verbatim>\<open>try\<close>: the two \<^verbatim>\<open>len\<close> calls can raise. \<open>elapsed\<close> is the measured
  duration in milliseconds (the difference of two clock readings).
\<close>

fun completed_result ::
  "PrimitiveType \<Rightarrow> kwargs \<Rightarrow> pyval \<Rightarrow> real \<Rightarrow> py_exception + PrimitiveResult" where
  "completed_result DETECTION kw res elapsed =
     Inr (PrimitiveResult COMPLETED res [] []
            [(''detection_latency_ms'', PyNum elapsed)] (Some elapsed))"
| "completed_result CORRECTION kw res elapsed =
     Inr (PrimitiveResult COMPLETED res [] []
            [(''correction_latency_ms'', PyNum elapsed)] (Some elapsed))"
| "completed_result UNCERTAINTY kw res elapsed =
     (case py_len res of
        Inl e \<Rightarrow> Inl e
      | Inr n \<Rightarrow> Inr (PrimitiveResult COMPLETED res [] []
                       [(''uncertainty_dimensions'', PyNum (real n))] None))"
| "completed_result COORDINATION kw res elapsed =
     (case py_len (dict_get kw ''agents'' (PyList [])) of
        Inl e \<Rightarrow> Inl e
      | Inr n \<Rightarrow> Inr (PrimitiveResult COMPLETED res [] []
                       [(''coordinated_agents'', PyNum (real n))] None))"
| "completed_result TRUST kw res elapsed =
     Inr (PrimitiveResult COMPLETED (PyDict [(''trust_score'', res)]) [] []
            [(''trust_score'', res)] None)"
| "completed_result _ kw res elapsed =
     Inr (PrimitiveResult COMPLETED res [] [] [] None)"

text \<open>The \<^verbatim>\<open>except Exception as e\<close> clause shared by the ten \<^verbatim>\<open>execute\<close>
  methods: an \<^verbatim>\<open>Exception\<close> becomes a failed result with its text, anything else
  passes through.\<close>

fun except_Exception ::
  "py_exception \<Rightarrow> 'w \<Rightarrow> (py_exception + PrimitiveResult) \<times> 'w" where
  "except_Exception (Exception msg) w =
     (Inr (PrimitiveResult FAILED PyNone [msg] [] [] None), w)"
| "except_Exception (BaseException msg) w = (Inl (BaseException msg), w)"

text \<open>\<^verbatim>\<open>execute\<close> of a specialization: the \<^verbatim>\<open>try\<close> body runs the operation,
  triggers the callbacks and builds the result.\<close>

definition specialized_execute ::
  "('c, 'w) specialization \<Rightarrow> real \<Rightarrow> ('c, 'w) execute_fn" where
  "specialized_execute p elapsed context kw w =
     (case operation p (op_args (kind p) kw) context w of
        (Inl e, w1) \<Rightarrow> except_Exception e w1
      | (Inr res, w1) \<Rightarrow>
          (case trigger_callbacks (callbacks p) (event_name (kind p))
                  (event_data (kind p) kw res) w1 of
             (Inl e, w2) \<Rightarrow> except_Exception e w2
           | (Inr _, w2) \<Rightarrow>
               (case completed_result (kind p) kw res elapsed of
                  Inl e \<Rightarrow> except_Exception e w2
                | Inr r \<Rightarrow> (Inr r, w2))))"

lemma except_Exception_no_Exception:
  "fst (except_Exception e w) \<noteq> Inl (Exception msg)"
  by (cases e) simp_all

lemma specialized_execute_no_Exception:
  "fst (specialized_execute p elapsed ctx kw w) \<noteq> Inl (Exception msg)"
  by (auto simp: specialized_execute_def except_Exception_no_Exception
           split: prod.splits sum.splits)

text \<open>
  What \<^verbatim>\<open>except Exception\<close> leaves alone: an exception outside the class
  \<^verbatim>\<open>Exception\<close> raised by the operation leaves \<^verbatim>\<open>execute\<close> as it is.
\<close>

lemma specialized_execute_BaseException:
  "operation p (op_args (kind p) kw) ctx w = (Inl (BaseException msg), w1) \<Longrightarrow>
     specialized_execute p elapsed ctx kw w = (Inl (BaseException msg), w1)"
  by (simp add: specialized_execute_def)

text \<open>
  C7. For every specialization (detection, correction, uncertainty, coordination, trust,
  memory, handoff, workflow, compliance, benchmark), every context, every keyword
  arguments and every state: if the narrowed operation raises an exception (an instance
  of \<^verbatim>\<open>Exception\<close>) with text \<open>msg\<close>, then \<^verbatim>\<open>execute\<close> returns a result with
  status failed, no data and the error list \<open>[msg]\<close>; and \<^verbatim>\<open>execute\<close> never
  raises an \<^verbatim>\<open>Exception\<close> to its caller, whether it comes from the operation, from a
  callback or from building the result.
\<close>

theorem specialized_execute_reports_failure:
  "(operation p (op_args (kind p) kw) ctx w = (Inl (Exception msg), w1) \<longrightarrow>
      (\<exists>r. specialized_execute p elapsed ctx kw w = (Inr r, w1) \<and>
         r = PrimitiveResult FAILED PyNone [msg] [] [] None \<and>
         status r = FAILED \<and> msg \<in> set (errors r))) \<and>
   (\<forall>m. fst (specialized_execute p elapsed ctx kw w) \<noteq> Inl (Exception m))"
proof -
  have caught: "\<exists>r. specialized_execute p elapsed ctx kw w = (Inr r, w1) \<and>
         r = PrimitiveResult FAILED PyNone [msg] [] [] None \<and>
         status r = FAILED \<and> msg \<in> set (errors r)"
    if "operation p (op_args (kind p) kw) ctx w = (Inl (Exception msg), w1)"
    using that by (simp add: specialized_execute_def)
  have never: "fst (specialized_execute p elapsed ctx kw w) \<noteq> Inl (Exception m)" for m
    by (rule specialized_execute_no_Exception)
  from caught never show ?thesis by blast
qed

theorem specialized_execute_reports_failure_witness:
  "specialized_execute
     \<lparr>spec_name = ''hallucination_detection'', kind = DETECTION, callbacks = [],
      operation = (\<lambda>args ctx w. (Inl (Exception ''model offline''), Suc w))\<rparr>
     12 () [(''input_data'', PyStr ''text'')] (0::nat) =
   (Inr (PrimitiveResult FAILED PyNone [''model offline''] [] [] None), 1) \<and>
   specialized_execute
     \<lparr>spec_name = ''uncertainty_quantification'', kind = UNCERTAINTY, callbacks = [],
      operation = (\<lambda>args ctx w. (Inr (PyDict [(''epistemic'', PyNum 1)]), Suc w))\<rparr>
     12 () [] (0::nat) =
   (Inr (PrimitiveResult COMPLETED (PyDict [(''epistemic'', PyNum 1)]) [] []
           [(''uncertainty_dimensions'', PyNum 1)] None), 1)"
proof -
  let ?p = "\<lparr>spec_name = ''hallucination_detection'', kind = DETECTION, callbacks = [],
      operation = (\<lambda>args ctx w. (Inl (Exception ''model offline''), Suc w))\<rparr>
      :: (unit, nat) specialization"
  have raises: "operation ?p (op_args (kind ?p) [(''input_data'', PyStr ''text'')]) () 0 =
      (Inl (Exception ''model offline''), 1)"
    by simp
  have ok: "specialized_execute
     \<lparr>spec_name = ''uncertainty_quantification'', kind = UNCERTAINTY, callbacks = [],
      operation = (\<lambda>args ctx w. (Inr (PyDict [(''epistemic'', PyNum 1)]), Suc w))\<rparr>
     12 () [] (0::nat) =
   (Inr (PrimitiveResult COMPLETED (PyDict [(''epistemic'', PyNum 1)]) [] []
           [(''uncertainty_dimensions'', PyNum 1)] None), 1)"
    by (simp add: specialized_execute_def trigger_callbacks_def event_data_def)
  from specialized_execute_reports_failure
         [of ?p "[(''input_data'', PyStr ''text'')]" "()" 0 "''model offline''" 1 12]
       raises ok
  show ?thesis by auto
qed

section \<open>Domain router: domain detection\<close>

text \<open>
  Source: \<^verbatim>\<open>DomainRouter.detect_domain\<close> in \<^verbatim>\<open>src/gatf/core/domain_router.py\<close>.
  The signature table \<^verbatim>\<open>self._signatures\<close> is state of the router
  (\<^verbatim>\<open>register_custom_domain\<close> adds to it), so it is an argument: the items of the
  dict in order. A Python set of strings is the list of its elements. The agent
  configuration enters through the two values the method reads from it:
  \<^verbatim>\<open>str(agent_config)\<close> and \<^verbatim>\<open>agent_config.get("model_type", "")\<close>. The
  regular-expression search of the library (\<^verbatim>\<open>re.search\<close> with
  \<^verbatim>\<open>re.IGNORECASE\<close>) is the argument \<open>re_search\<close>, from pattern and text to
  whether there is a match. Floats are \<^typ>\<open>real\<close>.
\<close>

datatype Domain =
    FINANCE | HEALTHCARE | LEGAL | MANUFACTURING | RETAIL
  | CYBERSECURITY | HR | RESEARCH | DEVOPS | CUSTOM

text \<open>A key of the signature table: a domain, or the name of a registered custom domain.\<close>

datatype domain_key = BuiltIn Domain | CustomName string





text \<open>
  The sample data as far as the method inspects it: absent (\<^verbatim>\<open>None\<close>), a dict
  with its keys and its \<^verbatim>\<open>str\<close>, or another value with its truth value and its
  \<^verbatim>\<open>str\<close>. A dict key that is not a string matches no required field.
\<close>

datatype dict_key = StrKey string | OtherKey




text \<open>\<^verbatim>\<open>str.lower\<close> on ASCII letters.\<close>

definition lower_char :: "char \<Rightarrow> char" where
  "lower_char c =
     (let n = (of_char c :: nat) in if 65 \<le> n \<and> n \<le> 90 then char_of (n + 32) else c)"

definition lower :: "string \<Rightarrow> string" where
  "lower s = map lower_char s"


















section \<open>Validation Orchestrator: task scheduling\<close>

text \<open>
  Source: \<^verbatim>\<open>ValidationOrchestrator._execute_tasks\<close> and \<^verbatim>\<open>_execute_task\<close> in
  \<^verbatim>\<open>src/gatf/validation/orchestrators/validation_orchestrator.py\<close>.
\<close>

datatype ValidationStage =
    INITIALIZATION | PRE_VALIDATION | DOMAIN_VALIDATION | QUALITY_VALIDATION
  | METRIC_CALCULATION | POST_VALIDATION | AGGREGATION | FINALIZATION

text \<open>\<^verbatim>\<open>ValidationStatus\<close>; the members carry the prefix \<open>VS_\<close> here, the plain
  names being those of \<^typ>\<open>PrimitiveStatus\<close>.\<close>

datatype ValidationStatus =
    VS_PENDING | VS_RUNNING | VS_COMPLETED | VS_FAILED | VS_CANCELLED | VS_SKIPPED

text \<open>
  What one call of a task's callable does: it returns a value after some elapsed
  seconds, or it raises an exception with a text.
\<close>

datatype call_outcome = Returns pyval real | Raises string

text \<open>
  \<^verbatim>\<open>ValidationTask\<close>. The callable \<^verbatim>\<open>validator_func\<close> is its behaviour as a
  function of the number of calls made before; \<open>calls\<close> counts the calls made, and is
  the only field that is not in the source. The clock fields \<^verbatim>\<open>start_time\<close> and
  \<^verbatim>\<open>end_time\<close> and the unused \<^verbatim>\<open>input_data\<close> are left out. The fields
  \<^verbatim>\<open>name\<close>, \<^verbatim>\<open>status\<close> and \<^verbatim>\<open>error\<close> carry the prefix \<open>task_\<close>.
\<close>

record ValidationTask =
  task_id :: string
  task_name :: string
  stage :: ValidationStage
  task_status :: ValidationStatus
  dependencies :: "string list"
  validator_func :: "(nat \<Rightarrow> call_outcome) option"
  output_data :: "pyval option"
  task_error :: "string option"
  retry_count :: int
  max_retries :: int
  calls :: nat

text \<open>The part of \<^verbatim>\<open>ValidationPipeline\<close> that the scheduler reads.\<close>

record ValidationPipeline =
  parallel_stages :: "ValidationStage list"
  stage_timeout :: "(ValidationStage \<times> real) list"

text \<open>The \<^verbatim>\<open>except\<close> clause of \<^verbatim>\<open>_execute_task\<close>: the task is marked failed,
  and put back to pending with one more retry counted while the count is below the cap.\<close>

definition task_failed :: "string \<Rightarrow> ValidationTask \<Rightarrow> ValidationTask" where
  "task_failed msg task =
     (let task = task\<lparr>task_error := Some msg, task_status := VS_FAILED\<rparr>
      in if retry_count task < max_retries task
         then task\<lparr>retry_count := retry_count task + 1, task_status := VS_PENDING\<rparr>
         else task)"

text \<open>\<^verbatim>\<open>_execute_task\<close>; exceeding the stage's timeout raises a
  \<^verbatim>\<open>SchedulingError\<close> inside the \<^verbatim>\<open>try\<close> (its message is kept without
  the formatted number of seconds).\<close>

definition execute_task :: "ValidationPipeline \<Rightarrow> ValidationTask \<Rightarrow> ValidationTask" where
  "execute_task pipeline task =
     (let timeout = dict_get (stage_timeout pipeline) (stage task) 30.0 in
      case validator_func task of
        None \<Rightarrow> task\<lparr>task_status := VS_SKIPPED\<rparr>
      | Some f \<Rightarrow>
          (case f (calls task) of
             Returns result elapsed \<Rightarrow>
               if elapsed > timeout
               then task_failed (''Task '' @ task_name task @ '' exceeded timeout'')
                      (task\<lparr>calls := Suc (calls task)\<rparr>)
               else task\<lparr>calls := Suc (calls task), output_data := Some result,
                         task_status := VS_COMPLETED\<rparr>
           | Raises msg \<Rightarrow> task_failed msg (task\<lparr>calls := Suc (calls task)\<rparr>)))"

text \<open>
  The tasks of the context are the values of the dict \<^verbatim>\<open>context.tasks\<close> in
  insertion order, each stored under its own \<^verbatim>\<open>task_id\<close>; the objects are mutated
  in place, so a task is addressed by its position. The set \<^verbatim>\<open>completed_tasks\<close> is
  a duplicate-free list. The readiness test of the source:
\<close>

definition is_ready :: "ValidationTask list \<Rightarrow> string list \<Rightarrow> nat \<Rightarrow> bool" where
  "is_ready tasks completed_tasks i =
     (task_id (tasks ! i) \<notin> set completed_tasks \<and>
      task_status (tasks ! i) = VS_PENDING \<and>
      set (dependencies (tasks ! i)) \<subseteq> set completed_tasks)"

definition ready_tasks :: "ValidationTask list \<Rightarrow> string list \<Rightarrow> nat list" where
  "ready_tasks tasks completed_tasks =
     filter (is_ready tasks completed_tasks) [0..<length tasks]"

text \<open>
  The submission loop over the ready tasks and the wait for the futures. A task of a
  parallel stage, or the only ready task, is marked running and run by the worker pool;
  any other runs inline. Either way \<^verbatim>\<open>_execute_task\<close> catches what the callable
  raises, and the task's id is added to \<^verbatim>\<open>completed_tasks\<close>. The outcome of a call
  does not depend on the other tasks here, so the pool's interleaving is the order of
  submission, with the mark set before the worker writes the status.
\<close>

fun submit_ready ::
  "ValidationPipeline \<Rightarrow> nat \<Rightarrow> nat list \<Rightarrow> ValidationTask list \<Rightarrow> string list \<Rightarrow>
   ValidationTask list \<times> string list" where
  "submit_ready pipeline n [] tasks completed_tasks = (tasks, completed_tasks)"
| "submit_ready pipeline n (i # rest) tasks completed_tasks =
     (let task = tasks ! i;
          task' = (if stage task \<in> set (parallel_stages pipeline) \<or> n = 1
                   then execute_task pipeline (task\<lparr>task_status := VS_RUNNING\<rparr>)
                   else execute_task pipeline task)
      in submit_ready pipeline n rest (tasks[i := task'])
           (List.insert (task_id task') completed_tasks))"

datatype DependencyError = DependencyError string

text \<open>One iteration of the \<^verbatim>\<open>while\<close> loop of \<^verbatim>\<open>_execute_tasks\<close>.\<close>

definition scheduling_wave ::
  "ValidationPipeline \<Rightarrow> ValidationTask list \<Rightarrow> string list \<Rightarrow>
   DependencyError + ValidationTask list \<times> string list" where
  "scheduling_wave pipeline tasks completed_tasks =
     (let ready = ready_tasks tasks completed_tasks in
      if ready = [] \<and> length completed_tasks < length tasks
      then Inl (DependencyError ''Circular dependency detected in validation pipeline'')
      else Inr (submit_ready pipeline (length ready) ready tasks completed_tasks))"

lemma execute_task_id [simp]: "task_id (execute_task pipeline task) = task_id task"
  by (simp add: execute_task_def task_failed_def Let_def
           split: option.split call_outcome.split)

lemma execute_task_dependencies [simp]:
  "dependencies (execute_task pipeline task) = dependencies task"
  by (simp add: execute_task_def task_failed_def Let_def
           split: option.split call_outcome.split)

lemma submit_ready_ids:
  "set ready \<subseteq> {..<length tasks} \<Longrightarrow>
   submit_ready pipeline n ready tasks completed = (tasks', completed') \<Longrightarrow>
   map task_id tasks' = map task_id tasks \<and>
   map dependencies tasks' = map dependencies tasks \<and>
   set completed' = set completed \<union> (\<lambda>i. task_id (tasks ! i)) ` set ready \<and>
   (distinct completed \<longrightarrow> distinct completed')"
proof (induction ready arbitrary: tasks completed)
  case Nil
  then show ?case by simp
next
  case (Cons i rest)
  define task' where "task' =
    (if stage (tasks ! i) \<in> set (parallel_stages pipeline) \<or> n = 1
     then execute_task pipeline ((tasks ! i)\<lparr>task_status := VS_RUNNING\<rparr>)
     else execute_task pipeline (tasks ! i))"
  have id': "task_id task' = task_id (tasks ! i)"
    and dep': "dependencies task' = dependencies (tasks ! i)"
    by (simp_all add: task'_def)
  from Cons.prems(1) have i: "i < length tasks" and rest: "set rest \<subseteq> {..<length (tasks[i := task'])}"
    by auto
  from Cons.prems(2) have run: "submit_ready pipeline n rest (tasks[i := task'])
       (List.insert (task_id task') completed) = (tasks', completed')"
    by (simp add: task'_def Let_def)
  have ids: "map task_id (tasks[i := task']) = map task_id tasks"
    using i id' by (simp add: map_update list_update_same_conv)
  have deps: "map dependencies (tasks[i := task']) = map dependencies tasks"
    using i dep' by (simp add: map_update list_update_same_conv)
  have nth_id: "task_id (tasks[i := task'] ! j) = task_id (tasks ! j)" if "j < length tasks" for j
    using ids that by (metis length_list_update nth_map)
  from Cons.IH [OF rest run] have
    a: "map task_id tasks' = map task_id (tasks[i := task'])"
    and b: "map dependencies tasks' = map dependencies (tasks[i := task'])"
    and c: "set completed' = set (List.insert (task_id task') completed) \<union>
              (\<lambda>j. task_id (tasks[i := task'] ! j)) ` set rest"
    and d: "distinct (List.insert (task_id task') completed) \<longrightarrow> distinct completed'"
    by simp_all
  have "(\<lambda>j. task_id (tasks[i := task'] ! j)) ` set rest = (\<lambda>j. task_id (tasks ! j)) ` set rest"
    using rest nth_id by (intro image_cong) auto
  with c have c': "set completed' = set completed \<union> (\<lambda>j. task_id (tasks ! j)) ` set (i # rest)"
    by (auto simp: id')
  from a b c' d ids deps show ?case by simp
qed

lemma ready_tasks_bound: "set (ready_tasks tasks completed) \<subseteq> {..<length tasks}"
  by (auto simp: ready_tasks_def)

lemma scheduling_wave_ids:
  assumes "scheduling_wave pipeline tasks completed = Inr (tasks', completed')"
  shows "map task_id tasks' = map task_id tasks"
    and "map dependencies tasks' = map dependencies tasks"
    and "set completed' =
           set completed \<union> (\<lambda>i. task_id (tasks ! i)) ` set (ready_tasks tasks completed)"
    and "distinct completed \<Longrightarrow> distinct completed'"
proof -
  from assms have run: "submit_ready pipeline (length (ready_tasks tasks completed))
      (ready_tasks tasks completed) tasks completed = (tasks', completed')"
    by (simp add: scheduling_wave_def Let_def split: if_splits)
  note facts = submit_ready_ids [OF ready_tasks_bound run]
  from facts show "map task_id tasks' = map task_id tasks" by simp
  from facts show "map dependencies tasks' = map dependencies tasks" by simp
  from facts show "set completed' =
           set completed \<union> (\<lambda>i. task_id (tasks ! i)) ` set (ready_tasks tasks completed)"
    by simp
  from facts show "distinct completed \<Longrightarrow> distinct completed'" by simp
qed

lemma scheduling_wave_progress:
  assumes wave: "scheduling_wave pipeline tasks completed = Inr (tasks', completed')"
    and more: "length completed < length tasks"
  shows "set (map task_id tasks') - set completed' \<subset> set (map task_id tasks) - set completed"
proof -
  from wave more have "ready_tasks tasks completed \<noteq> []"
    by (auto simp: scheduling_wave_def Let_def split: if_splits)
  then obtain i where i: "i \<in> set (ready_tasks tasks completed)"
    by (cases "ready_tasks tasks completed") auto
  then have bound: "i < length tasks" and fresh: "task_id (tasks ! i) \<notin> set completed"
    by (auto simp: ready_tasks_def is_ready_def)
  have ids: "map task_id tasks' = map task_id tasks"
    and comp: "set completed' =
           set completed \<union> (\<lambda>i. task_id (tasks ! i)) ` set (ready_tasks tasks completed)"
    using scheduling_wave_ids [OF wave] by simp_all
  have inn: "task_id (tasks ! i) \<in> set (map task_id tasks)"
    using bound by simp
  have now: "task_id (tasks ! i) \<in> set completed'"
    using i comp by auto
  have "set (map task_id tasks') - set completed' \<subseteq> set (map task_id tasks) - set completed"
    using comp by (auto simp: ids)
  moreover have "task_id (tasks ! i) \<in> set (map task_id tasks) - set completed"
    using inn fresh by simp
  moreover have "task_id (tasks ! i) \<notin> set (map task_id tasks') - set completed'"
    using now by simp
  ultimately show ?thesis by blast
qed

text \<open>
  The \<^verbatim>\<open>while\<close> loop of \<^verbatim>\<open>_execute_tasks\<close>. The source mutates the tasks of the
  context and returns nothing; the model returns the tasks as the loop leaves them, or
  the error raised.
\<close>

function execute_tasks_loop ::
  "ValidationPipeline \<Rightarrow> ValidationTask list \<Rightarrow> string list \<Rightarrow>
   DependencyError + ValidationTask list" where
  "execute_tasks_loop pipeline tasks completed_tasks =
     (if length completed_tasks < length tasks
      then (case scheduling_wave pipeline tasks completed_tasks of
              Inl e \<Rightarrow> Inl e
            | Inr (tasks', completed_tasks') \<Rightarrow>
                execute_tasks_loop pipeline tasks' completed_tasks')
      else Inr tasks)"
  by pat_completeness auto
termination
proof (relation "measure (\<lambda>(pipeline, tasks, completed).
          card (set (map task_id tasks) - set completed))")
  show "wf (measure (\<lambda>(pipeline, tasks, completed).
          card (set (map task_id tasks) - set completed)))"
    by simp
next
  fix pipeline :: ValidationPipeline and tasks completed_tasks x2 tasks' completed'
  assume more: "length completed_tasks < length tasks"
    and wave: "scheduling_wave pipeline tasks completed_tasks = Inr x2"
    and pair: "(tasks', completed') = x2"
  from wave pair have "scheduling_wave pipeline tasks completed_tasks = Inr (tasks', completed')"
    by simp
  from scheduling_wave_progress [OF this more]
  have "card (set (map task_id tasks') - set completed')
      < card (set (map task_id tasks) - set completed_tasks)"
    by (intro psubset_card_mono) auto
  then show "((pipeline, tasks', completed'), (pipeline, tasks, completed_tasks))
      \<in> measure (\<lambda>(pipeline, tasks, completed). card (set (map task_id tasks) - set completed))"
    by simp
qed

declare execute_tasks_loop.simps [simp del]

text \<open>\<^verbatim>\<open>_execute_tasks\<close> starts the loop with no task completed.\<close>

definition execute_tasks ::
  "ValidationPipeline \<Rightarrow> ValidationTask list \<Rightarrow> DependencyError + ValidationTask list" where
  "execute_tasks pipeline tasks = execute_tasks_loop pipeline tasks []"

text \<open>
  A dependency cycle among the tasks at the positions \<open>c\<close>, as the specification
  words it for the scheduler: there is at least one such task, and each of them depends
  on one of them (for \<open>A\<close> depending on \<open>B\<close> and \<open>B\<close> on \<open>A\<close>, the two positions).
\<close>

definition dependency_cycle :: "ValidationTask list \<Rightarrow> nat list \<Rightarrow> bool" where
  "dependency_cycle tasks c =
     (c \<noteq> [] \<and>
      list_all (\<lambda>i. i < length tasks \<and>
                  list_ex (\<lambda>j. task_id (tasks ! j) \<in> set (dependencies (tasks ! i))) c) c)"

lemma dependency_cycle_cong:
  assumes ids: "map task_id tasks' = map task_id tasks"
    and deps: "map dependencies tasks' = map dependencies tasks"
    and cyc: "dependency_cycle tasks c"
  shows "dependency_cycle tasks' c"
proof -
  from ids have len: "length tasks' = length tasks"
    by (metis length_map)
  have id: "task_id (tasks' ! i) = task_id (tasks ! i)" if "i < length tasks" for i
    using ids that len by (metis nth_map)
  have dep: "dependencies (tasks' ! i) = dependencies (tasks ! i)" if "i < length tasks" for i
    using deps that len by (metis nth_map)
  from cyc have ne: "c \<noteq> []" by (simp add: dependency_cycle_def)
  from cyc have bound: "\<forall>i\<in>set c. i < length tasks"
    by (auto simp: dependency_cycle_def list_all_iff)
  have "i < length tasks' \<and> (\<exists>j\<in>set c. task_id (tasks' ! j) \<in> set (dependencies (tasks' ! i)))"
    if i: "i \<in> set c" for i
  proof -
    from cyc i obtain j where j: "j \<in> set c"
      "task_id (tasks ! j) \<in> set (dependencies (tasks ! i))"
      by (auto simp: dependency_cycle_def list_all_iff list_ex_iff)
    from bound i j(1) have bi: "i < length tasks" and bj: "j < length tasks" by simp_all
    have "task_id (tasks' ! j) \<in> set (dependencies (tasks' ! i))"
      using j(2) id [OF bj] dep [OF bi] by simp
    with j(1) bi len show ?thesis by auto
  qed
  with ne show ?thesis
    by (auto simp: dependency_cycle_def list_all_iff list_ex_iff)
qed

text \<open>What holds of \<^verbatim>\<open>completed_tasks\<close> in every iteration when the tasks at \<open>c\<close>
  form a cycle: it has no duplicates and holds ids of tasks outside the cycle only.\<close>

definition cycle_untouched :: "ValidationTask list \<Rightarrow> nat list \<Rightarrow> string list \<Rightarrow> bool" where
  "cycle_untouched tasks c completed =
     (distinct completed \<and>
      set completed \<subseteq> set (map task_id tasks) - (\<lambda>i. task_id (tasks ! i)) ` set c)"

lemma cycle_not_ready:
  assumes cyc: "dependency_cycle tasks c" and inv: "cycle_untouched tasks c completed"
    and i: "i \<in> set c"
  shows "\<not> is_ready tasks completed i"
proof -
  from cyc i obtain j where j: "j \<in> set c"
    "task_id (tasks ! j) \<in> set (dependencies (tasks ! i))"
    by (auto simp: dependency_cycle_def list_all_iff list_ex_iff)
  from inv j(1) have "task_id (tasks ! j) \<notin> set completed"
    by (auto simp: cycle_untouched_def)
  with j(2) show ?thesis by (auto simp: is_ready_def)
qed

lemma cycle_pending_remains:
  assumes cyc: "dependency_cycle tasks c" and inv: "cycle_untouched tasks c completed"
  shows "length completed < length tasks"
proof -
  let ?ids = "set (map task_id tasks)"
  let ?cyc = "(\<lambda>i. task_id (tasks ! i)) ` set c"
  from cyc obtain i where i: "i \<in> set c" "i < length tasks"
    by (cases c) (auto simp: dependency_cycle_def)
  then have "task_id (tasks ! i) \<in> ?ids" "task_id (tasks ! i) \<in> ?cyc" by auto
  then have "?ids - ?cyc \<subset> ?ids" by blast
  then have "card (?ids - ?cyc) < card ?ids"
    by (intro psubset_card_mono) auto
  moreover from inv have "card (set completed) \<le> card (?ids - ?cyc)"
    by (intro card_mono) (auto simp: cycle_untouched_def)
  moreover from inv have "card (set completed) = length completed"
    by (simp add: cycle_untouched_def distinct_card)
  moreover have "card ?ids \<le> length tasks"
    by (metis card_length length_map)
  ultimately show ?thesis by linarith
qed

lemma cycle_untouched_wave:
  assumes cyc: "dependency_cycle tasks c" and inv: "cycle_untouched tasks c completed"
    and dist: "distinct (map task_id tasks)"
    and wave: "scheduling_wave pipeline tasks completed = Inr (tasks', completed')"
  shows "cycle_untouched tasks' c completed'"
proof -
  note w = scheduling_wave_ids [OF wave]
  from w(1) have len: "length tasks' = length tasks" by (metis length_map)
  have id: "task_id (tasks' ! i) = task_id (tasks ! i)" if "i < length tasks" for i
    using w(1) that len by (metis nth_map)
  from cyc have cb: "\<forall>i\<in>set c. i < length tasks"
    by (auto simp: dependency_cycle_def list_all_iff)
  then have cyc_ids: "(\<lambda>i. task_id (tasks' ! i)) ` set c = (\<lambda>i. task_id (tasks ! i)) ` set c"
    using id by (intro image_cong) auto
  have d': "distinct completed'"
    using inv w(4) by (simp add: cycle_untouched_def)
  have "x \<in> set (map task_id tasks) - (\<lambda>i. task_id (tasks ! i)) ` set c"
    if x: "x \<in> set completed'" for x
  proof (cases "x \<in> set completed")
    case True
    with inv show ?thesis by (auto simp: cycle_untouched_def)
  next
    case False
    with x w(3) obtain i where i: "i \<in> set (ready_tasks tasks completed)"
      "x = task_id (tasks ! i)" by auto
    then have bi: "i < length tasks" and ri: "is_ready tasks completed i"
      by (auto simp: ready_tasks_def)
    have "x \<notin> (\<lambda>i. task_id (tasks ! i)) ` set c"
    proof
      assume "x \<in> (\<lambda>i. task_id (tasks ! i)) ` set c"
      then obtain k where k: "k \<in> set c" "x = task_id (tasks ! k)" by auto
      with cb have bk: "k < length tasks" by simp
      from dist bi bk i(2) k(2) have "i = k"
        by (metis distinct_conv_nth length_map nth_map)
      with k(1) ri cycle_not_ready [OF cyc inv] show False by blast
    qed
    moreover have "x \<in> set (map task_id tasks)"
      using bi i(2) by simp
    ultimately show ?thesis by simp
  qed
  with d' show ?thesis
    by (auto simp: cycle_untouched_def w(1) cyc_ids)
qed

lemma scheduling_wave_error:
  "scheduling_wave pipeline tasks completed = Inl e \<Longrightarrow>
     e = DependencyError ''Circular dependency detected in validation pipeline'' \<and>
     ready_tasks tasks completed = [] \<and> length completed < length tasks"
  by (auto simp: scheduling_wave_def Let_def split: if_splits)

lemma execute_tasks_loop_cycle:
  assumes "dependency_cycle tasks c" "cycle_untouched tasks c completed"
    "distinct (map task_id tasks)"
  shows "execute_tasks_loop pipeline tasks completed =
           Inl (DependencyError ''Circular dependency detected in validation pipeline'')"
  using assms
proof (induction pipeline tasks completed rule: execute_tasks_loop.induct)
  case (1 pipeline tasks completed)
  from cycle_pending_remains [OF "1.prems"(1,2)]
  have more: "length completed < length tasks" .
  show ?case
  proof (cases "scheduling_wave pipeline tasks completed")
    case (Inl e)
    with scheduling_wave_error [OF Inl] more show ?thesis
      by (simp add: execute_tasks_loop.simps [of pipeline tasks completed])
  next
    case (Inr x2)
    obtain tasks' completed' where x2: "x2 = (tasks', completed')" by (cases x2)
    from Inr x2 have wave: "scheduling_wave pipeline tasks completed = Inr (tasks', completed')"
      by simp
    note w = scheduling_wave_ids [OF wave]
    have cyc': "dependency_cycle tasks' c"
      using dependency_cycle_cong [OF w(1) w(2) "1.prems"(1)] .
    have inv': "cycle_untouched tasks' c completed'"
      using cycle_untouched_wave [OF "1.prems" wave] .
    have dist': "distinct (map task_id tasks')"
      using "1.prems"(3) w(1) by simp
    from "1.IH" [OF more Inr x2 [symmetric] cyc' inv' dist']
    have "execute_tasks_loop pipeline tasks' completed' =
        Inl (DependencyError ''Circular dependency detected in validation pipeline'')" .
    with more wave show ?thesis
      by (simp add: execute_tasks_loop.simps [of pipeline tasks completed])
  qed
qed

text \<open>
  A pipeline run with two tasks of a stage that is not parallel: the callable of
  \<open>flaky\<close> raises on its first call and returns from the second call on; the callable
  of \<open>steady\<close> returns. Both have the default cap of three retries.
\<close>

definition flaky :: ValidationTask where
  "flaky =
     \<lparr>task_id = ''t1'', task_name = ''flaky'', stage = PRE_VALIDATION,
      task_status = VS_PENDING, dependencies = [],
      validator_func = Some (\<lambda>n. if n = 0 then Raises ''connection reset''
                                   else Returns PyNone 0),
      output_data = None, task_error = None, retry_count = 0, max_retries = 3, calls = 0\<rparr>"

definition steady :: ValidationTask where
  "steady =
     \<lparr>task_id = ''t2'', task_name = ''steady'', stage = PRE_VALIDATION,
      task_status = VS_PENDING, dependencies = [],
      validator_func = Some (\<lambda>n. Returns PyNone 0),
      output_data = None, task_error = None, retry_count = 0, max_retries = 3, calls = 0\<rparr>"

text \<open>
  C2. The specification says: a task whose callable raises is marked failed, and while
  its retry count is below its cap it is reset to pending, its retry counter is incremented, and
  it is executed again in a later wave of the same run, so that a task that fails once
  and would then succeed ends the run completed. The scheduler does the first three and
  not the fourth: on the run below, the task whose callable raises on its first call
  only is reset to pending with retry count 1, its id is added to
  \<^verbatim>\<open>completed_tasks\<close> all the same, the loop ends after one wave, and the run
  returns with that task pending after a single call.
\<close>

theorem failed_task_is_not_retried:
  "\<exists>tasks. execute_tasks \<lparr>parallel_stages = [], stage_timeout = []\<rparr> [flaky, steady]
            = Inr tasks \<and>
     map task_status tasks = [VS_PENDING, VS_COMPLETED] \<and>
     map retry_count tasks = [1, 0] \<and>
     map calls tasks = [1, 1]"
proof -
  let ?p = "\<lparr>parallel_stages = [], stage_timeout = []\<rparr>"
  have ready: "ready_tasks [flaky, steady] [] = [0, 1]"
    by (simp add: ready_tasks_def is_ready_def flaky_def steady_def upt_rec)
  define flaky' where "flaky' = execute_task ?p flaky"
  define steady' where "steady' = execute_task ?p steady"
  have f: "task_status flaky' = VS_PENDING" "retry_count flaky' = 1" "calls flaky' = 1"
    "task_id flaky' = ''t1''"
    by (simp_all add: flaky'_def flaky_def execute_task_def task_failed_def dict_get_def)
  have s: "task_status steady' = VS_COMPLETED" "retry_count steady' = 0" "calls steady' = 1"
    "task_id steady' = ''t2''"
    by (simp_all add: steady'_def steady_def execute_task_def task_failed_def dict_get_def)
  have st: "stage flaky = PRE_VALIDATION" "stage steady = PRE_VALIDATION"
    "task_id flaky = ''t1''" "task_id steady = ''t2''"
    by (simp_all add: flaky_def steady_def)
  have wave: "scheduling_wave ?p [flaky, steady] [] = Inr ([flaky', steady'], [''t2'', ''t1''])"
    by (simp add: scheduling_wave_def ready Let_def st flaky'_def [symmetric]
          steady'_def [symmetric] f s)
  have "execute_tasks ?p [flaky, steady] = Inr [flaky', steady']"
    by (simp add: execute_tasks_def execute_tasks_loop.simps [of ?p "[flaky, steady]" "[]"]
          execute_tasks_loop.simps [of ?p "[flaky', steady']"] wave)
  with f s show ?thesis by simp
qed

text \<open>What the submission loop does to the task at position \<open>i\<close>.\<close>

definition run_task :: "ValidationPipeline \<Rightarrow> nat \<Rightarrow> ValidationTask \<Rightarrow> ValidationTask" where
  "run_task pipeline n task =
     (if stage task \<in> set (parallel_stages pipeline) \<or> n = 1
      then execute_task pipeline (task\<lparr>task_status := VS_RUNNING\<rparr>)
      else execute_task pipeline task)"

lemma execute_task_calls: "calls (execute_task pipeline task) \<le> Suc (calls task)"
  by (simp add: execute_task_def task_failed_def Let_def
           split: option.split call_outcome.split)

lemma run_task_calls: "calls (run_task pipeline n task) \<le> Suc (calls task)"
  using execute_task_calls [of pipeline task]
    execute_task_calls [of pipeline "task\<lparr>task_status := VS_RUNNING\<rparr>"]
  by (simp add: run_task_def)

lemma submit_ready_nth:
  "distinct ready \<Longrightarrow> set ready \<subseteq> {..<length tasks} \<Longrightarrow>
   submit_ready pipeline n ready tasks completed = (tasks', completed') \<Longrightarrow>
   j < length tasks \<Longrightarrow>
   tasks' ! j = (if j \<in> set ready then run_task pipeline n (tasks ! j) else tasks ! j)"
proof (induction ready arbitrary: tasks completed)
  case Nil
  then show ?case by simp
next
  case (Cons i rest)
  let ?t = "run_task pipeline n (tasks ! i)"
  from Cons.prems have i: "i < length tasks" "i \<notin> set rest" "distinct rest"
    and rest: "set rest \<subseteq> {..<length (tasks[i := ?t])}" by auto
  from Cons.prems(3) have run: "submit_ready pipeline n rest (tasks[i := ?t])
      (List.insert (task_id ?t) completed) = (tasks', completed')"
    by (simp add: run_task_def Let_def)
  from Cons.prems(4) have j: "j < length (tasks[i := ?t])" by simp
  from Cons.IH [OF i(3) rest run j]
  have "tasks' ! j =
      (if j \<in> set rest then run_task pipeline n (tasks[i := ?t] ! j) else tasks[i := ?t] ! j)" .
  with i Cons.prems(4) show ?case
    by (cases "j = i") auto
qed

text \<open>What holds of the call counters in every iteration: no callable has been called
  twice, and none of a task that is not in \<^verbatim>\<open>completed_tasks\<close> has been called.\<close>

definition called_once :: "ValidationTask list \<Rightarrow> string list \<Rightarrow> bool" where
  "called_once tasks completed =
     (\<forall>i<length tasks. calls (tasks ! i) \<le> 1 \<and>
        (task_id (tasks ! i) \<notin> set completed \<longrightarrow> calls (tasks ! i) = 0))"

lemma called_once_wave:
  assumes inv: "called_once tasks completed"
    and wave: "scheduling_wave pipeline tasks completed = Inr (tasks', completed')"
  shows "called_once tasks' completed'"
proof -
  let ?ready = "ready_tasks tasks completed"
  from wave have run: "submit_ready pipeline (length ?ready) ?ready tasks completed
      = (tasks', completed')"
    by (simp add: scheduling_wave_def Let_def split: if_splits)
  have dr: "distinct ?ready" by (simp add: ready_tasks_def)
  note w = scheduling_wave_ids [OF wave]
  from w(1) have len: "length tasks' = length tasks" by (metis length_map)
  have "calls (tasks' ! j) \<le> 1 \<and>
        (task_id (tasks' ! j) \<notin> set completed' \<longrightarrow> calls (tasks' ! j) = 0)"
    if j: "j < length tasks'" for j
  proof -
    from j len have jl: "j < length tasks" by simp
    have id: "task_id (tasks' ! j) = task_id (tasks ! j)"
      using w(1) jl len by (metis nth_map)
    note nth = submit_ready_nth [OF dr ready_tasks_bound run jl]
    from inv jl have old: "calls (tasks ! j) \<le> 1"
      "task_id (tasks ! j) \<notin> set completed \<longrightarrow> calls (tasks ! j) = 0"
      by (simp_all add: called_once_def)
    show ?thesis
    proof (cases "j \<in> set ?ready")
      case True
      then have "task_id (tasks ! j) \<notin> set completed"
        by (simp add: ready_tasks_def is_ready_def)
      with old have "calls (tasks ! j) = 0" by simp
      with run_task_calls [of pipeline "length ?ready" "tasks ! j"] nth True
      have "calls (tasks' ! j) \<le> 1" by simp
      moreover have "task_id (tasks' ! j) \<in> set completed'"
        using True w(3) id by auto
      ultimately show ?thesis by simp
    next
      case False
      with nth have same: "tasks' ! j = tasks ! j" by simp
      have "set completed \<subseteq> set completed'" using w(3) by auto
      with old same show ?thesis by auto
    qed
  qed
  then show ?thesis by (simp add: called_once_def)
qed

lemma execute_tasks_loop_called_once:
  "called_once tasks completed \<Longrightarrow>
   execute_tasks_loop pipeline tasks completed = Inr tasks' \<Longrightarrow>
   \<forall>t\<in>set tasks'. calls t \<le> 1"
proof (induction pipeline tasks completed rule: execute_tasks_loop.induct)
  case (1 pipeline tasks completed)
  show ?case
  proof (cases "length completed < length tasks")
    case False
    with "1.prems"(2) have "tasks' = tasks"
      by (simp add: execute_tasks_loop.simps [of pipeline tasks completed])
    with "1.prems"(1) show ?thesis
      by (auto simp: called_once_def in_set_conv_nth)
  next
    case True
    show ?thesis
    proof (cases "scheduling_wave pipeline tasks completed")
      case (Inl e)
      with True "1.prems"(2) show ?thesis
        by (simp add: execute_tasks_loop.simps [of pipeline tasks completed])
    next
      case (Inr x2)
      obtain ts cs where x2: "x2 = (ts, cs)" by (cases x2)
      with Inr have wave: "scheduling_wave pipeline tasks completed = Inr (ts, cs)" by simp
      have inv: "called_once ts cs"
        using called_once_wave [OF "1.prems"(1) wave] .
      from True wave "1.prems"(2) have "execute_tasks_loop pipeline ts cs = Inr tasks'"
        by (simp add: execute_tasks_loop.simps [of pipeline tasks completed])
      from "1.IH" [OF True Inr x2 [symmetric] inv this] show ?thesis .
    qed
  qed
qed

text \<open>
  In every run of the scheduler that starts with no call made, no callable is called
  twice: a task put back to pending by the retry logic is in \<^verbatim>\<open>completed_tasks\<close>
  and is not selected again.
\<close>

lemma execute_tasks_calls_at_most_once:
  assumes "\<forall>t\<in>set tasks. calls t = 0"
    and "execute_tasks pipeline tasks = Inr tasks'"
  shows "\<forall>t\<in>set tasks'. calls t \<le> 1"
proof -
  from assms(1) have inv: "called_once tasks []"
    by (simp add: called_once_def)
  from assms(2) have "execute_tasks_loop pipeline tasks [] = Inr tasks'"
    by (simp add: execute_tasks_def)
  with inv show ?thesis by (rule execute_tasks_loop_called_once)
qed

section \<open>VOS Orchestrator: adaptive execution\<close>

text \<open>
  Source: \<^verbatim>\<open>VOSOrchestrator._execute_adaptive\<close> in
  \<^verbatim>\<open>src/gatf_vos/core/vos_orchestrator.py\<close>. The registry
  \<^verbatim>\<open>self._primitives\<close> is an argument. The retry policy is the dict
  \<^verbatim>\<open>plan.retry_policy\<close> as read through \<^verbatim>\<open>get('enabled', False)\<close> and
  \<^verbatim>\<open>get('max_retries', 3)\<close>. The sets \<^verbatim>\<open>executed\<close> and \<^verbatim>\<open>pending\<close> are
  duplicate-free lists.
\<close>

datatype OrchestrationMode = SEQUENTIAL | PARALLEL | ADAPTIVE | REAL_TIME

record retry_policy =
  retry_enabled :: bool
  retry_max_retries :: int

record ('c, 'w) OrchestrationPlan =
  plan_mode :: OrchestrationMode
  plan_primitives :: "('c, 'w) VOSPrimitive list"
  plan_dependencies :: "(string \<times> string list) list"
  plan_retry_policy :: retry_policy

text \<open>
  What can leave \<^verbatim>\<open>_execute_adaptive\<close>: the validation error of the source, the
  \<^verbatim>\<open>KeyError\<close> of \<^verbatim>\<open>pending.remove\<close> on a name that is not in the set, an
  exception raised by a primitive's \<^verbatim>\<open>execute\<close>, and the \<^verbatim>\<open>AttributeError\<close>
  of calling \<^verbatim>\<open>execute\<close> on the \<^verbatim>\<open>None\<close> that \<^verbatim>\<open>get_primitive\<close> returns
  for a name that is not registered.
\<close>

datatype orchestration_error =
    ValidationError string
  | PendingKeyError string
  | PrimitiveRaised py_exception
  | NotRegistered string

text \<open>The retry loop \<^verbatim>\<open>for i in range(retry_count)\<close>, counted down.\<close>

fun retry_loop ::
  "nat \<Rightarrow> (string \<times> ('c, 'w) VOSPrimitive) list \<Rightarrow> string \<Rightarrow> 'c \<Rightarrow>
   (string \<times> PrimitiveResult) list \<Rightarrow> 'w \<Rightarrow>
   orchestration_error + (string \<times> PrimitiveResult) list \<times> 'w" where
  "retry_loop 0 registry prim_name context results w = Inr (results, w)"
| "retry_loop (Suc k) registry prim_name context results w =
     (case map_of registry prim_name of
        None \<Rightarrow> Inl (NotRegistered prim_name)
      | Some p \<Rightarrow>
          (case execute p context [] w of
             (Inl e, w') \<Rightarrow> Inl (PrimitiveRaised e)
           | (Inr retry_result, w') \<Rightarrow>
               if status retry_result = COMPLETED
               then Inr (AList.update prim_name retry_result results, w')
               else retry_loop k registry prim_name context results w'))"

text \<open>
  The loop over the tasks of the ready primitives. Each task is modelled as running to
  its end when it is awaited, in the order of the list.
\<close>

fun await_tasks ::
  "(string \<times> ('c, 'w) VOSPrimitive) list \<Rightarrow> retry_policy \<Rightarrow> 'c \<Rightarrow>
   ('c, 'w) VOSPrimitive list \<Rightarrow>
   string list \<Rightarrow> string list \<Rightarrow> (string \<times> PrimitiveResult) list \<Rightarrow> 'w \<Rightarrow>
   orchestration_error +
     string list \<times> string list \<times> (string \<times> PrimitiveResult) list \<times> 'w" where
  "await_tasks registry policy context [] executed pending results w =
     Inr (executed, pending, results, w)"
| "await_tasks registry policy context (p # rest) executed pending results w =
     (case execute p context [] w of
        (Inl e, w') \<Rightarrow> Inl (PrimitiveRaised e)
      | (Inr prim_result, w') \<Rightarrow>
          (let results' = AList.update (name p) prim_result results;
               executed' = List.insert (name p) executed
           in if name p \<notin> set pending then Inl (PendingKeyError (name p))
              else
                (let pending' = removeAll (name p) pending in
                 if status prim_result = FAILED \<and> retry_enabled policy
                 then (case retry_loop (nat (retry_max_retries policy)) registry (name p)
                              context results' w' of
                         Inl e \<Rightarrow> Inl e
                       | Inr (results'', w'') \<Rightarrow>
                           await_tasks registry policy context rest
                             executed' pending' results'' w'')
                 else await_tasks registry policy context rest
                        executed' pending' results' w')))"

text \<open>The primitives of the plan that can run.\<close>

definition ready_primitives ::
  "('c, 'w) OrchestrationPlan \<Rightarrow> string list \<Rightarrow> string list \<Rightarrow> ('c, 'w) VOSPrimitive list" where
  "ready_primitives plan executed pending =
     filter (\<lambda>prim. name prim \<in> set pending \<and>
               list_all (\<lambda>d. d \<in> set executed)
                 (dict_get (plan_dependencies plan) (name prim) []))
       (plan_primitives plan)"

lemma await_tasks_sets:
  "await_tasks registry policy context ready executed pending results w
     = Inr (executed', pending', results', w') \<Longrightarrow>
   set pending' = set pending - name ` set ready \<and>
   name ` set ready \<subseteq> set pending \<and>
   set executed' = set executed \<union> name ` set ready"
proof (induction ready arbitrary: executed pending results w)
  case Nil
  then show ?case by simp
next
  case (Cons p rest)
  from Cons.prems obtain r w1 where ex: "execute p context [] w = (Inr r, w1)"
    by (cases "execute p context [] w") (auto split: sum.splits)
  from Cons.prems ex have pin: "name p \<in> set pending"
    by (auto simp: Let_def split: if_splits)
  from Cons.prems ex pin obtain rs2 w2 where
    rest: "await_tasks registry policy context rest (List.insert (name p) executed)
             (removeAll (name p) pending) rs2 w2 = Inr (executed', pending', results', w')"
    by (auto simp: Let_def split: if_splits sum.splits prod.splits)
  from Cons.IH [OF rest] pin show ?case by auto
qed

text \<open>The \<^verbatim>\<open>while pending\<close> loop of \<^verbatim>\<open>_execute_adaptive\<close>.\<close>

function execute_adaptive_loop ::
  "(string \<times> ('c, 'w) VOSPrimitive) list \<Rightarrow> ('c, 'w) OrchestrationPlan \<Rightarrow> 'c \<Rightarrow>
   string list \<Rightarrow> string list \<Rightarrow> (string \<times> PrimitiveResult) list \<Rightarrow> 'w \<Rightarrow>
   orchestration_error + (string \<times> PrimitiveResult) list \<times> 'w" where
  "execute_adaptive_loop registry plan context executed pending results w =
     (if pending \<noteq> []
      then (let ready = ready_primitives plan executed pending in
            if ready = []
            then Inl (ValidationError ''Circular dependency detected in orchestration plan'')
            else (case await_tasks registry (plan_retry_policy plan) context ready
                         executed pending results w of
                    Inl e \<Rightarrow> Inl e
                  | Inr (executed', pending', results', w') \<Rightarrow>
                      execute_adaptive_loop registry plan context
                        executed' pending' results' w'))
      else Inr (results, w))"
  by pat_completeness auto
termination
proof (relation "measure (\<lambda>(registry, plan, context, executed, pending, results, w).
          card (set pending))")
  show "wf (measure (\<lambda>(registry, plan, context, executed, pending, results, w).
          card (set pending)))"
    by simp
next
  fix registry :: "(string \<times> ('c, 'w) VOSPrimitive) list"
    and plan :: "('c, 'w) OrchestrationPlan" and ctx :: "'c"
    and executed pending :: "string list" and results :: "(string \<times> PrimitiveResult) list"
    and w :: "'w" and ready x2 executed' y pending' ya results' w'
  assume ready: "ready = ready_primitives plan executed pending" "ready \<noteq> []"
    and run: "await_tasks registry (plan_retry_policy plan) ctx ready
                executed pending results w = Inr x2"
    and split: "(executed', y) = x2" "(pending', ya) = y" "(results', w') = ya"
  from run split have "await_tasks registry (plan_retry_policy plan) ctx ready
      executed pending results w = Inr (executed', pending', results', w')"
    by simp
  from await_tasks_sets [OF this]
  have a: "set pending' = set pending - name ` set ready"
    and b: "name ` set ready \<subseteq> set pending" by simp_all
  from ready(2) obtain p where "p \<in> set ready" by (cases ready) auto
  with a b have "set pending' \<subset> set pending" by auto
  then have "card (set pending') < card (set pending)"
    by (intro psubset_card_mono) auto
  then show "((registry, plan, ctx, executed', pending', results', w'),
       (registry, plan, ctx, executed, pending, results, w))
      \<in> measure (\<lambda>(registry, plan, ctx, executed, pending, results, w).
            card (set pending))"
    by simp
qed

declare execute_adaptive_loop.simps [simp del]

text \<open>\<^verbatim>\<open>_execute_adaptive\<close>: nothing executed, the names of the plan's primitives
  pending. The results are those already in \<^verbatim>\<open>result.primitive_results\<close>.\<close>

definition execute_adaptive ::
  "(string \<times> ('c, 'w) VOSPrimitive) list \<Rightarrow> ('c, 'w) OrchestrationPlan \<Rightarrow> 'c \<Rightarrow>
   (string \<times> PrimitiveResult) list \<Rightarrow> 'w \<Rightarrow>
   orchestration_error + (string \<times> PrimitiveResult) list \<times> 'w" where
  "execute_adaptive registry plan context results w =
     execute_adaptive_loop registry plan context []
       (remdups (map name (plan_primitives plan))) results w"

text \<open>
  A dependency cycle among the primitives named in \<open>s\<close>: there is at least one name,
  each is the name of a primitive of the plan, and each depends on one of them.
\<close>

definition plan_cycle :: "('c, 'w) OrchestrationPlan \<Rightarrow> string list \<Rightarrow> bool" where
  "plan_cycle plan s =
     (s \<noteq> [] \<and>
      list_all (\<lambda>n. n \<in> set (map name (plan_primitives plan)) \<and>
                  list_ex (\<lambda>d. d \<in> set s) (dict_get (plan_dependencies plan) n [])) s)"

text \<open>A primitive whose \<^verbatim>\<open>execute\<close> returns a result in every state.\<close>

definition returns_result :: "('c, 'w) VOSPrimitive \<Rightarrow> 'c \<Rightarrow> bool" where
  "returns_result p ctx = (\<forall>w. \<exists>r w'. execute p ctx [] w = (Inr r, w'))"

text \<open>Every primitive of the plan returns a result, and so does the registered
  primitive of its name when the plan retries.\<close>

definition members_return ::
  "(string \<times> ('c, 'w) VOSPrimitive) list \<Rightarrow> ('c, 'w) OrchestrationPlan \<Rightarrow> 'c \<Rightarrow> bool" where
  "members_return registry plan ctx =
     (\<forall>p\<in>set (plan_primitives plan).
        returns_result p ctx \<and>
        (retry_enabled (plan_retry_policy plan) \<longrightarrow>
           (\<exists>q. map_of registry (name p) = Some q \<and> returns_result q ctx)))"

lemma cycle_not_ready_primitive:
  assumes cyc: "plan_cycle plan s" and dis: "set s \<inter> set executed = {}"
    and p: "p \<in> set (ready_primitives plan executed pending)"
  shows "name p \<notin> set s"
proof
  assume n: "name p \<in> set s"
  with cyc obtain d where d: "d \<in> set (dict_get (plan_dependencies plan) (name p) [])"
    "d \<in> set s"
    by (auto simp: plan_cycle_def list_all_iff list_ex_iff)
  from p d(1) have "d \<in> set executed"
    by (auto simp: ready_primitives_def list_all_iff)
  with d(2) dis show False by auto
qed

lemma cycle_wave:
  assumes cyc: "plan_cycle plan s"
    and sub: "set s \<subseteq> set pending" and dis: "set s \<inter> set executed = {}"
    and run: "await_tasks registry policy ctx (ready_primitives plan executed pending)
                executed pending results w = Inr (executed', pending', results', w')"
  shows "set s \<subseteq> set pending'" "set s \<inter> set executed' = {}"
proof -
  let ?ready = "ready_primitives plan executed pending"
  from await_tasks_sets [OF run]
  have a: "set pending' = set pending - name ` set ?ready"
    and c: "set executed' = set executed \<union> name ` set ?ready" by simp_all
  have off: "name ` set ?ready \<inter> set s = {}"
    using cycle_not_ready_primitive [OF cyc dis] by auto
  from a sub off show "set s \<subseteq> set pending'" by auto
  from c dis off show "set s \<inter> set executed' = {}" by auto
qed

lemma execute_adaptive_loop_cycle:
  assumes "plan_cycle plan s" "set s \<subseteq> set pending" "set s \<inter> set executed = {}"
  shows "\<exists>e. execute_adaptive_loop registry plan ctx executed pending results w = Inl e"
  using assms
proof (induction registry plan ctx executed pending results w
         rule: execute_adaptive_loop.induct)
  case (1 registry plan ctx executed pending results w)
  let ?ready = "ready_primitives plan executed pending"
  from "1.prems"(1,2) have ne: "pending \<noteq> []"
    by (auto simp: plan_cycle_def)
  show ?case
  proof (cases "?ready = []")
    case True
    with ne show ?thesis
      by (simp add: execute_adaptive_loop.simps
            [of registry plan ctx executed pending results w])
  next
    case False
    show ?thesis
    proof (cases "await_tasks registry (plan_retry_policy plan) ctx ?ready
                    executed pending results w")
      case (Inl e)
      with ne False show ?thesis
        by (simp add: execute_adaptive_loop.simps
              [of registry plan ctx executed pending results w])
    next
      case (Inr x2)
      obtain ex' pe' rs' w' where x2: "x2 = (ex', pe', rs', w')" by (cases x2) auto
      with Inr have run: "await_tasks registry (plan_retry_policy plan) ctx ?ready
          executed pending results w = Inr (ex', pe', rs', w')" by simp
      note inv = cycle_wave [OF "1.prems" run]
      have "\<exists>e. execute_adaptive_loop registry plan ctx ex' pe' rs' w' = Inl e"
        using "1.IH" [OF ne refl False Inr, of ex' "(pe', rs', w')" pe' "(rs', w')" rs' w']
          x2 "1.prems"(1) inv by simp
      with ne False run show ?thesis
        by (simp add: execute_adaptive_loop.simps
              [of registry plan ctx executed pending results w])
    qed
  qed
qed

lemma retry_loop_returns:
  assumes "map_of registry n = Some q" "returns_result q ctx"
  shows "\<exists>rs' w'. retry_loop k registry n ctx rs w = Inr (rs', w')"
proof (induction k arbitrary: w)
  case 0
  show ?case by simp
next
  case (Suc k)
  from assms(2) obtain r w1 where r: "execute q ctx [] w = (Inr r, w1)"
    unfolding returns_result_def by blast
  from Suc [of w1] assms(1) r show ?case by auto
qed

lemma await_tasks_returns:
  assumes "distinct (map name ready)" "name ` set ready \<subseteq> set pending"
    "\<forall>p\<in>set ready. returns_result p ctx \<and>
        (retry_enabled policy \<longrightarrow>
           (\<exists>q. map_of registry (name p) = Some q \<and> returns_result q ctx))"
  shows "\<exists>st. await_tasks registry policy ctx ready executed pending results w = Inr st"
  using assms
proof (induction ready arbitrary: executed pending results w)
  case Nil
  show ?case by simp
next
  case (Cons p rest)
  from Cons.prems(3) obtain r w1 where r: "execute p ctx [] w = (Inr r, w1)"
    unfolding returns_result_def by (metis list.set_intros(1))
  from Cons.prems(2) have pin: "name p \<in> set pending" by simp
  from Cons.prems(1) have np: "name p \<notin> name ` set rest" and dr: "distinct (map name rest)"
    by simp_all
  from Cons.prems(2) np have "name ` set rest \<subseteq> set pending - {name p}"
    by (metis Diff_empty image_set list.simps(9) set_subset_Cons subset_Diff_insert subset_trans)
  with dr have rest: "distinct (map name rest)"
    "name ` set rest \<subseteq> set (removeAll (name p) pending)" by simp_all
  from Cons.prems(3) have cond: "\<forall>p\<in>set rest. returns_result p ctx \<and>
        (retry_enabled policy \<longrightarrow>
           (\<exists>q. map_of registry (name p) = Some q \<and> returns_result q ctx))" by simp
  note IH = Cons.IH [OF rest cond]
  show ?case
  proof (cases "status r = FAILED \<and> retry_enabled policy")
    case False
    with r pin IH [of "List.insert (name p) executed" "AList.update (name p) r results" w1]
    show ?thesis by (auto simp: Let_def)
  next
    case True
    with Cons.prems(3) obtain q where q: "map_of registry (name p) = Some q"
      "returns_result q ctx" by auto
    from retry_loop_returns [OF q, of "nat (retry_max_retries policy)"
           "AList.update (name p) r results" w1]
    obtain rs2 w2 where rl: "retry_loop (nat (retry_max_retries policy)) registry (name p)
        ctx (AList.update (name p) r results) w1 = Inr (rs2, w2)" by blast
    with r pin True IH [of "List.insert (name p) executed" rs2 w2]
    show ?thesis by (auto simp: Let_def)
  qed
qed

lemma ready_primitives_ok:
  assumes "distinct (map name (plan_primitives plan))"
  shows "distinct (map name (ready_primitives plan executed pending))"
    and "name ` set (ready_primitives plan executed pending) \<subseteq> set pending"
    and "set (ready_primitives plan executed pending) \<subseteq> set (plan_primitives plan)"
  using assms by (auto simp: ready_primitives_def distinct_map_filter)

lemma execute_adaptive_loop_cycle_error:
  assumes "plan_cycle plan s" "set s \<subseteq> set pending" "set s \<inter> set executed = {}"
    "distinct (map name (plan_primitives plan))" "members_return registry plan ctx"
  shows "execute_adaptive_loop registry plan ctx executed pending results w =
           Inl (ValidationError ''Circular dependency detected in orchestration plan'')"
  using assms
proof (induction registry plan ctx executed pending results w
         rule: execute_adaptive_loop.induct)
  case (1 registry plan ctx executed pending results w)
  let ?ready = "ready_primitives plan executed pending"
  from "1.prems"(1,2) have ne: "pending \<noteq> []"
    by (auto simp: plan_cycle_def)
  show ?case
  proof (cases "?ready = []")
    case True
    with ne show ?thesis
      by (simp add: execute_adaptive_loop.simps
            [of registry plan ctx executed pending results w])
  next
    case False
    note rp = ready_primitives_ok [OF "1.prems"(4), of executed pending]
    have cond: "\<forall>p\<in>set ?ready. returns_result p ctx \<and>
        (retry_enabled (plan_retry_policy plan) \<longrightarrow>
           (\<exists>q. map_of registry (name p) = Some q \<and> returns_result q ctx))"
      using "1.prems"(5) rp(3) unfolding members_return_def by blast
    from await_tasks_returns [OF rp(1) rp(2) cond, of executed results w]
    obtain x2 where Inr: "await_tasks registry (plan_retry_policy plan) ctx ?ready
        executed pending results w = Inr x2" by blast
    obtain ex' pe' rs' w' where x2: "x2 = (ex', pe', rs', w')" by (cases x2) auto
    with Inr have run: "await_tasks registry (plan_retry_policy plan) ctx ?ready
          executed pending results w = Inr (ex', pe', rs', w')" by simp
    note inv = cycle_wave [OF "1.prems"(1,2,3) run]
    have "execute_adaptive_loop registry plan ctx ex' pe' rs' w' =
        Inl (ValidationError ''Circular dependency detected in orchestration plan'')"
      using "1.IH" [OF ne refl False Inr, of ex' "(pe', rs', w')" pe' "(rs', w')" rs' w']
        x2 "1.prems"(1,4,5) inv by simp
    with ne False run show ?thesis
      by (simp add: execute_adaptive_loop.simps
            [of registry plan ctx executed pending results w])
  qed
qed

text \<open>
  The ready list follows the plan's primitive list while \<^verbatim>\<open>pending\<close> is a set of
  names: when two primitives of the plan have the same name, both are ready in one wave
  and the second \<^verbatim>\<open>pending.remove\<close> raises \<^verbatim>\<open>KeyError\<close>, which ends the run
  before any later wave.
\<close>

lemma duplicate_name_key_error:
  "execute_adaptive []
     \<lparr>plan_mode = ADAPTIVE,
      plan_primitives =
        [\<lparr>name = ''x'', primitive_type = DETECTION,
          execute = (\<lambda>ctx kw w. (Inr (PrimitiveResult COMPLETED PyNone [] [] [] None), w))\<rparr>,
         \<lparr>name = ''x'', primitive_type = DETECTION,
          execute = (\<lambda>ctx kw w. (Inr (PrimitiveResult COMPLETED PyNone [] [] [] None), w))\<rparr>],
      plan_dependencies = [],
      plan_retry_policy = \<lparr>retry_enabled = False, retry_max_retries = 3\<rparr>\<rparr>
     () [] () = Inl (PendingKeyError ''x'')"
  by (simp add: execute_adaptive_def execute_adaptive_loop.simps ready_primitives_def
        dict_get_def Let_def)

text \<open>
  C5. Both schedulers are total functions, so neither runs forever. For every task list
  with distinct ids that contains a dependency cycle, the Validation Orchestrator's
  scheduler raises the dependency error; it does so in any iteration in which no task is
  ready while some are not completed. For every orchestration plan that contains a
  dependency cycle, the VOS Orchestrator's adaptive mode ends by raising: with distinct
  primitive names and primitives that return results it raises the validation error,
  as it does in any iteration in which no primitive is ready while some are pending.
\<close>

theorem dependency_cycle_raises:
  "(dependency_cycle tasks c \<and> distinct (map task_id tasks) \<longrightarrow>
      execute_tasks pipeline tasks =
        Inl (DependencyError ''Circular dependency detected in validation pipeline'')) \<and>
   (ready_tasks tasks completed = [] \<and> length completed < length tasks \<longrightarrow>
      execute_tasks_loop pipeline tasks completed =
        Inl (DependencyError ''Circular dependency detected in validation pipeline'')) \<and>
   (plan_cycle plan s \<longrightarrow>
      (\<exists>e. execute_adaptive registry plan ctx results w = Inl e) \<and>
      (distinct (map name (plan_primitives plan)) \<and> members_return registry plan ctx \<longrightarrow>
         execute_adaptive registry plan ctx results w =
           Inl (ValidationError ''Circular dependency detected in orchestration plan''))) \<and>
   (pending \<noteq> [] \<and> ready_primitives plan executed pending = [] \<longrightarrow>
      execute_adaptive_loop registry plan ctx executed pending results w =
        Inl (ValidationError ''Circular dependency detected in orchestration plan''))"
proof -
  have tasks_cycle: "execute_tasks pipeline tasks =
        Inl (DependencyError ''Circular dependency detected in validation pipeline'')"
    if "dependency_cycle tasks c \<and> distinct (map task_id tasks)"
  proof -
    have "cycle_untouched tasks c []" by (simp add: cycle_untouched_def)
    with that show ?thesis
      unfolding execute_tasks_def by (intro execute_tasks_loop_cycle) simp_all
  qed
  have tasks_stuck: "execute_tasks_loop pipeline tasks completed =
        Inl (DependencyError ''Circular dependency detected in validation pipeline'')"
    if "ready_tasks tasks completed = [] \<and> length completed < length tasks"
    using that
    by (simp add: execute_tasks_loop.simps [of pipeline tasks completed] scheduling_wave_def)
  have start: "set s \<subseteq> set (remdups (map name (plan_primitives plan)))"
    "set s \<inter> set [] = {}" if "plan_cycle plan s"
    using that by (auto simp: plan_cycle_def list_all_iff)
  have plan_error: "\<exists>e. execute_adaptive registry plan ctx results w = Inl e"
    if cyc: "plan_cycle plan s"
    unfolding execute_adaptive_def
    using execute_adaptive_loop_cycle [OF cyc start [OF cyc]] .
  have plan_validation: "execute_adaptive registry plan ctx results w =
           Inl (ValidationError ''Circular dependency detected in orchestration plan'')"
    if cyc: "plan_cycle plan s"
      and ok: "distinct (map name (plan_primitives plan)) \<and> members_return registry plan ctx"
    unfolding execute_adaptive_def
    using execute_adaptive_loop_cycle_error [OF cyc start [OF cyc]] ok by blast
  have plan_stuck: "execute_adaptive_loop registry plan ctx executed pending results w =
        Inl (ValidationError ''Circular dependency detected in orchestration plan'')"
    if "pending \<noteq> [] \<and> ready_primitives plan executed pending = []"
    using that
    by (simp add: execute_adaptive_loop.simps
          [of registry plan ctx executed pending results w])
  from tasks_cycle tasks_stuck plan_error plan_validation plan_stuck
  show ?thesis by blast
qed

text \<open>Task \<open>A\<close> depends on \<open>B\<close> and \<open>B\<close> on \<open>A\<close>; primitive \<open>a\<close> depends on
  \<open>b\<close> and \<open>b\<close> on \<open>a\<close>.\<close>

definition task_A :: ValidationTask where
  "task_A =
     \<lparr>task_id = ''A'', task_name = ''first'', stage = DOMAIN_VALIDATION,
      task_status = VS_PENDING, dependencies = [''B''],
      validator_func = Some (\<lambda>n. Returns PyNone 0),
      output_data = None, task_error = None, retry_count = 0, max_retries = 3, calls = 0\<rparr>"

definition task_B :: ValidationTask where
  "task_B =
     \<lparr>task_id = ''B'', task_name = ''second'', stage = QUALITY_VALIDATION,
      task_status = VS_PENDING, dependencies = [''A''],
      validator_func = Some (\<lambda>n. Returns PyNone 0),
      output_data = None, task_error = None, retry_count = 0, max_retries = 3, calls = 0\<rparr>"

definition primitive_returning :: "string \<Rightarrow> (unit, nat) VOSPrimitive" where
  "primitive_returning n =
     \<lparr>name = n, primitive_type = DETECTION,
      execute = (\<lambda>ctx kw w. (Inr (PrimitiveResult COMPLETED PyNone [] [] [] None), Suc w))\<rparr>"

definition cyclic_plan :: "(unit, nat) OrchestrationPlan" where
  "cyclic_plan =
     \<lparr>plan_mode = ADAPTIVE,
      plan_primitives = [primitive_returning ''a'', primitive_returning ''b''],
      plan_dependencies = [(''a'', [''b'']), (''b'', [''a''])],
      plan_retry_policy = \<lparr>retry_enabled = False, retry_max_retries = 3\<rparr>\<rparr>"

theorem dependency_cycle_raises_witness:
  "execute_tasks \<lparr>parallel_stages = [DOMAIN_VALIDATION, QUALITY_VALIDATION],
                  stage_timeout = []\<rparr> [task_A, task_B] =
     Inl (DependencyError ''Circular dependency detected in validation pipeline'') \<and>
   execute_adaptive [] cyclic_plan () [] (0::nat) =
     Inl (ValidationError ''Circular dependency detected in orchestration plan'')"
proof -
  have c1: "dependency_cycle [task_A, task_B] [0, 1] \<and>
      distinct (map task_id [task_A, task_B])"
    by (simp add: dependency_cycle_def task_A_def task_B_def)
  have c2: "plan_cycle cyclic_plan [''a'', ''b'']"
    by (simp add: plan_cycle_def cyclic_plan_def primitive_returning_def dict_get_def)
  have c3: "distinct (map name (plan_primitives cyclic_plan)) \<and>
      members_return [] cyclic_plan ()"
    by (simp add: cyclic_plan_def primitive_returning_def members_return_def
          returns_result_def)
  from dependency_cycle_raises
         [of "[task_A, task_B]" "[0, 1]"
             "\<lparr>parallel_stages = [DOMAIN_VALIDATION, QUALITY_VALIDATION], stage_timeout = []\<rparr>"
             "[]" cyclic_plan "[''a'', ''b'']" "[]" "()" "[]" 0 "[]" "[]"]
       c1 c2 c3
  show ?thesis by blast
qed

end
